theory Spec2Isabelle
  imports
    Main
    "HOL-Library.Word"
    "HOL-Library.Product_Lexorder"
    "HOL-Library.List_Lexorder"
begin

unbundle bit_operations_syntax

section \<open>Identifiers, ranks and keys\<close>

text \<open>
  \<open>EntityId\<close> is an unsigned 64-bit integer that the code under study only copies and
  compares, and \<open>EntityRank\<close> is a small enumeration; both are natural numbers here.
  Process ranks are C++ \<open>int\<close>s that are only compared, hence \<open>int\<close>.
  An \<open>EntityKey\<close> is the pair (rank, id), ordered lexicographically.
\<close>

type_synonym EntityId = nat
type_synonym EntityRank = nat
type_synonym EntityKey = "EntityRank \<times> EntityId"
type_synonym Entity = nat

definition NODE_RANK :: EntityRank where "NODE_RANK = 0"
definition EDGE_RANK :: EntityRank where "EDGE_RANK = 1"
definition FACE_RANK :: EntityRank where "FACE_RANK = 2"
definition ELEM_RANK :: EntityRank where "ELEM_RANK = 3"
definition CONSTRAINT_RANK :: EntityRank where "CONSTRAINT_RANK = 4"

datatype error =
    NotOkToModify
  | BadKeyRank EntityRank EntityId
  | BadId EntityId
  | NotOwner
  | InvalidRelation
  | InvalidChildNodeUse
  | OutOfRange
  | NullBucket
  | ParallelConsistencyError
  | SideRankNotSupported
  | InternalPartManipulation
  | ConflictingSideId
  | BadSideInputs

section \<open>Child node requests (Akri\_MeshHelpers.cpp)\<close>

text \<open>
  \<open>struct ActiveChildNodeRequest\<close>. The pairs are \<open>std::pair<int, EntityId>\<close>, filled by
  \<open>add_proc_id_pair\<close> as (proc, id); \<open>std::sort\<close> orders them with the pair's
  \<open>operator<\<close>, lexicographic with the process first.
\<close>

record ActiveChildNodeRequest =
  m_parents :: "EntityId list"
  m_sharing_procs :: "int list"
  m_id_proc_pairs_from_all_procs :: "(int \<times> EntityId) list"
  m_id_procs_pairs_have_been_sorted :: bool

definition new_ActiveChildNodeRequest :: "EntityId list \<Rightarrow> ActiveChildNodeRequest" where
  "new_ActiveChildNodeRequest parents =
     \<lparr> m_parents = sort parents, m_sharing_procs = [],
       m_id_proc_pairs_from_all_procs = [],
       m_id_procs_pairs_have_been_sorted = False \<rparr>"

definition add_proc_id_pair :: "int \<Rightarrow> EntityId \<Rightarrow> ActiveChildNodeRequest \<Rightarrow> ActiveChildNodeRequest" where
  "add_proc_id_pair proc_id ident r =
     r\<lparr> m_id_proc_pairs_from_all_procs := m_id_proc_pairs_from_all_procs r @ [(proc_id, ident)] \<rparr>"

text \<open>Reading element 0 of an empty vector is undefined in C++; the model reports it.\<close>

definition suggested_node_id :: "ActiveChildNodeRequest \<Rightarrow> error + EntityId" where
  "suggested_node_id r =
     (if m_id_procs_pairs_have_been_sorted r then Inl InvalidChildNodeUse
      else case m_id_proc_pairs_from_all_procs r of
             [] \<Rightarrow> Inl OutOfRange
           | p # _ \<Rightarrow> Inr (snd p))"

definition sort_id_proc_pairs :: "ActiveChildNodeRequest \<Rightarrow> ActiveChildNodeRequest" where
  "sort_id_proc_pairs r =
     r\<lparr> m_id_procs_pairs_have_been_sorted := True,
        m_id_proc_pairs_from_all_procs := sort (m_id_proc_pairs_from_all_procs r) \<rparr>"

definition get_id_for_child :: "ActiveChildNodeRequest \<Rightarrow> error + EntityId" where
  "get_id_for_child r =
     (if \<not> m_id_procs_pairs_have_been_sorted r then Inl InvalidChildNodeUse
      else case m_id_proc_pairs_from_all_procs r of
             [] \<Rightarrow> Inl OutOfRange
           | p # _ \<Rightarrow> Inr (snd p))"

text \<open>
  \<open>set_node_entity_for_request\<close>: sorts the pairs, takes the id for the child, declares
  the node with that id and adds node sharing for every pair of another process. The
  model returns the request, the id handed to \<open>declare_node\<close> and the processes handed
  to \<open>add_node_sharing\<close>, in order.
\<close>

definition set_node_entity_for_request ::
  "int \<Rightarrow> ActiveChildNodeRequest \<Rightarrow> error + (ActiveChildNodeRequest \<times> EntityId \<times> int list)" where
  "set_node_entity_for_request parallel_rank r =
     (let r' = sort_id_proc_pairs r in
      case get_id_for_child r' of
        Inl e \<Rightarrow> Inl e
      | Inr id_for_child \<Rightarrow>
          Inr (r', id_for_child,
               filter (\<lambda>p. p \<noteq> parallel_rank) (map fst (m_id_proc_pairs_from_all_procs r'))))"

text \<open>
  \<open>std::lower_bound\<close> over requests ordered by \<open>operator<\<close> (\<open>m_parents < other.m_parents\<close>,
  the lexicographic order of the vectors): the first position whose element is not less
  than the value. On the sorted vector the code searches, the binary search returns this
  position.
\<close>

fun lower_bound_request :: "ActiveChildNodeRequest list \<Rightarrow> EntityId list \<Rightarrow> nat" where
  "lower_bound_request [] v = 0"
| "lower_bound_request (r # rs) v =
     (if m_parents r < v then Suc (lower_bound_request rs v) else 0)"

text \<open>
  The unpacking loop of \<open>batch_create_child_nodes\<close>: a message is the sending process,
  the parents as packed and the sender's suggested id. The request built from the
  message sorts the parents; a local request with equal parents records the pair.
\<close>

definition receive_child_node_message ::
  "ActiveChildNodeRequest list \<Rightarrow> int \<times> EntityId list \<times> EntityId \<Rightarrow> ActiveChildNodeRequest list" where
  "receive_child_node_message reqs msg =
     (case msg of (i, request_parents, suggested) \<Rightarrow>
        let from_other_proc = new_ActiveChildNodeRequest request_parents;
            k = lower_bound_request reqs (m_parents from_other_proc)
        in if k < length reqs \<and> m_parents (reqs ! k) = m_parents from_other_proc
           then reqs[k := add_proc_id_pair i suggested (reqs ! k)]
           else reqs)"

definition receive_child_node_messages ::
  "ActiveChildNodeRequest list \<Rightarrow> (int \<times> EntityId list \<times> EntityId) list \<Rightarrow> ActiveChildNodeRequest list" where
  "receive_child_node_messages reqs msgs = foldl receive_child_node_message reqs msgs"

text \<open>
  The proposals a process receives for a request with the given (sorted) parents: the
  pairs the unpacking loop records, in order of arrival.
\<close>

definition matching_proposals :: "EntityId list \<Rightarrow> (int \<times> EntityId list \<times> EntityId) list \<Rightarrow> (int \<times> EntityId) list" where
  "matching_proposals parents msgs =
     map (\<lambda>(i, ps, s). (i, s)) (filter (\<lambda>(i, ps, s). sort ps = parents) msgs)"

text \<open>
  The proposals that request \<open>k\<close> of the request vector holds after the unpacking loop:
  its own and, when no earlier request has the same parents, those received for its
  parents. \<open>std::lower_bound\<close> finds the first request with the parents of a message, so
  a later request with the same parents records nothing.
\<close>

definition proposals_held ::
  "ActiveChildNodeRequest list \<Rightarrow> nat \<Rightarrow> (int \<times> EntityId list \<times> EntityId) list \<Rightarrow> (int \<times> EntityId) list" where
  "proposals_held reqs k msgs =
     m_id_proc_pairs_from_all_procs (reqs ! k)
     @ (if m_parents (reqs ! k) \<in> set (map m_parents (take k reqs)) then []
        else matching_proposals (m_parents (reqs ! k)) msgs)"

section \<open>Resolving the keys of shared entities (BulkData.cpp)\<close>











text \<open>
  The key \<open>update_owner_global_key_and_sharing_proc\<close> leaves after the proposals: that of
  the last proposal from a process ranked below the local one, else the local key.
\<close>

definition last_lower_ranked_key :: "int \<Rightarrow> EntityKey \<Rightarrow> (int \<times> EntityKey) list \<Rightarrow> EntityKey" where
  "last_lower_ranked_key this_parallel_rank own_key proposals =
     (case filter (\<lambda>pk. fst pk < this_parallel_rank) proposals of
        [] \<Rightarrow> own_key
      | p # ps \<Rightarrow> snd (last (p # ps)))"


section \<open>Choosing a new owner (BulkData.cpp)\<close>

text \<open>
  An \<open>EntityCommInfo\<close> is the pair (ghost\_id, proc). \<open>determine_new_owner\<close> walks the
  shared range of the entity's comm map. Its accumulator is an \<open>int\<close> initialised from
  the conditional \<open>is_valid(entity) ? parallel_rank() : ~0u\<close>, so for a destroyed entity it
  holds the 32-bit pattern of \<open>~0u\<close> read as a signed value.
\<close>

record EntityCommInfo =
  ghost_id :: nat
  proc :: int

definition invalid_owner_sentinel :: int where
  "invalid_owner_sentinel = sint (NOT (0 :: 32 word))"

fun determine_new_owner_loop :: "int \<Rightarrow> int \<Rightarrow> EntityCommInfo list \<Rightarrow> int" where
  "determine_new_owner_loop parallel_size new_owner [] = new_owner"
| "determine_new_owner_loop parallel_size new_owner (share # rest) =
     determine_new_owner_loop parallel_size
       (if proc share < parallel_size \<and> (proc share < new_owner \<or> parallel_size \<le> new_owner)
        then proc share else new_owner)
       rest"

definition determine_new_owner_of :: "bool \<Rightarrow> int \<Rightarrow> int \<Rightarrow> EntityCommInfo list \<Rightarrow> int" where
  "determine_new_owner_of entity_is_valid parallel_rank parallel_size shared =
     determine_new_owner_loop parallel_size
       (if entity_is_valid then parallel_rank else invalid_owner_sentinel) shared"

section \<open>Rank and id validation (BulkData.cpp)\<close>

type_synonym PartOrdinal = nat
type_synonym ConnectivityOrdinal = nat
type_synonym Permutation = nat
type_synonym Relation = "Entity \<times> ConnectivityOrdinal \<times> Permutation"

text \<open>
  What the code reads from \<open>MetaData\<close>, \<open>Part\<close> and \<open>EntityKey\<close>, whose sources are not
  part of the repository files at hand: the rank count, the spatial dimension, the side
  rank, the largest id, the ordinals of the parts the mesh manages itself, and per part
  its supersets, its subsets, whether it has a primary entity rank, whether it is
  induced from entities of a given rank, and whether it is managed internally (declared
  automatically and not a topology root part). They are parameters of the model.
\<close>

record MetaData =
  entity_rank_count :: nat
  spatial_dimension :: nat
  side_rank :: EntityRank
  MAX_ID :: EntityId
  universal_part :: PartOrdinal
  locally_owned_part :: PartOrdinal
  globally_shared_part :: PartOrdinal
  aura_part :: PartOrdinal
  part_supersets :: "PartOrdinal \<Rightarrow> PartOrdinal list"
  part_subsets :: "PartOrdinal \<Rightarrow> PartOrdinal list"
  part_is_ranked :: "PartOrdinal \<Rightarrow> bool"
  part_should_induce :: "PartOrdinal \<Rightarrow> EntityRank \<Rightarrow> bool"
  part_is_internal :: "PartOrdinal \<Rightarrow> bool"

text \<open>
  Modelled from the spec: \<open>EntityKey::is_valid_id\<close> is declared in a header that is not
  among the sources; the id must lie in \<open>[1, max_id]\<close>.
\<close>

definition is_valid_id :: "MetaData \<Rightarrow> EntityId \<Rightarrow> bool" where
  "is_valid_id meta ent_id = (0 < ent_id \<and> ent_id \<le> MAX_ID meta)"

definition require_good_rank_and_id :: "MetaData \<Rightarrow> EntityRank \<Rightarrow> EntityId \<Rightarrow> error + unit" where
  "require_good_rank_and_id meta ent_rank ent_id =
     (let rank_count = entity_rank_count meta;
          ok_id = is_valid_id meta ent_id;
          ok_rank = (ent_rank < rank_count \<and> \<not> (ent_rank = FACE_RANK \<and> spatial_dimension meta = 2))
      in if \<not> ok_rank then Inl (BadKeyRank ent_rank ent_id)
         else if \<not> ok_id then Inl (BadId ent_id)
         else Inr ())"

section \<open>The mesh (BulkData.cpp)\<close>

datatype EntityState = Unchanged | Created | Modified | Deleted

definition InvalidEntityRank :: EntityRank where "InvalidEntityRank = 255"
definition invalid_key :: EntityKey where "invalid_key = (InvalidEntityRank, 0)"
definition InvalidEntity :: Entity where "InvalidEntity = 0"
definition SHARED :: nat where "SHARED = 0"

text \<open>
  A bucket, as far as this code reads it: the rank of its entities and the sorted
  ordinals of the parts they are members of. The connectivity, which the buckets store
  per entity and rank, is kept per entity in \<open>m_connectivity\<close>.
\<close>

record Bucket =
  bucket_entity_rank :: EntityRank
  supersets :: "PartOrdinal list"

text \<open>
  The state of \<open>BulkData\<close> that the modelled operations read and write. The vectors
  indexed by \<open>local_offset\<close> (\<open>m_mesh_indexes\<close>, \<open>m_entity_keys\<close>, \<open>m_owner\<close>,
  \<open>m_closure_count\<close>, the entity states) always have one length, \<open>m_mesh_indexes_size\<close>;
  they are functions on the offsets. A mesh index is the bucket pointer, \<open>None\<close> for
  \<open>nullptr\<close>. Observers, field data, the modification summary and the selector caches
  are not part of the model. \<open>unprotect_count\<close> stands for the header-only
  \<open>unprotect_orphaned_node\<close>, which rewrites one closure count from the entity's rank,
  state and count. \<open>sierra_migration\<close> tells whether the build defines
  \<open>SIERRA_MIGRATION\<close>.
\<close>

record BulkData =
  m_mesh_meta_data :: MetaData
  m_parallel_rank :: int
  m_parallel_size :: int
  m_in_synchronized_state :: bool
  m_mesh_indexes_size :: nat
  m_mesh_indexes :: "Entity \<Rightarrow> Bucket option"
  m_entity_keys :: "Entity \<Rightarrow> EntityKey"
  m_owner :: "Entity \<Rightarrow> int"
  m_closure_count :: "Entity \<Rightarrow> 16 word"
  m_entity_state :: "Entity \<Rightarrow> EntityState"
  m_connectivity :: "Entity \<Rightarrow> Relation list"
  m_entity_repo :: "EntityKey \<rightharpoonup> Entity"
  m_entity_comm_map :: "EntityKey \<Rightarrow> EntityCommInfo list"
  m_entity_comm_list :: "(EntityKey \<times> Entity) list"
  m_deleted_entities :: "Entity list"
  m_deleted_entities_current_modification_cycle :: "Entity list"
  m_ghost_reuse_map :: "EntityKey \<rightharpoonup> Entity"
  unprotect_count :: "EntityRank \<Rightarrow> EntityState \<Rightarrow> 16 word \<Rightarrow> 16 word"
  sierra_migration :: bool
  m_add_fmwk_data :: bool

subsection \<open>Errors and loops that stop at the first error\<close>

definition then_do :: "error + 'a \<Rightarrow> ('a \<Rightarrow> error + 'b) \<Rightarrow> error + 'b" where
  "then_do r f = (case r of Inl e \<Rightarrow> Inl e | Inr x \<Rightarrow> f x)"

fun fold_err :: "('a \<Rightarrow> 's \<Rightarrow> error + 's) \<Rightarrow> 'a list \<Rightarrow> 's \<Rightarrow> error + 's" where
  "fold_err f [] s = Inr s"
| "fold_err f (x # xs) s = (case f x s of Inl e \<Rightarrow> Inl e | Inr s' \<Rightarrow> fold_err f xs s')"

lemma then_do_cong [fundef_cong]:
  "r = r' \<Longrightarrow> (\<And>x. r' = Inr x \<Longrightarrow> f x = f' x) \<Longrightarrow> then_do r f = then_do r' f'"
  by (auto simp: then_do_def split: sum.splits)

lemma fold_err_cong [fundef_cong]:
  "xs = ys \<Longrightarrow> s = t \<Longrightarrow> (\<And>x u. x \<in> set ys \<Longrightarrow> f x u = g x u) \<Longrightarrow> fold_err f xs s = fold_err g ys t"
proof (induction ys arbitrary: xs s t)
  case Nil
  then show ?case by simp
next
  case (Cons y ys)
  then show ?case by (auto split: sum.splits)
qed

subsection \<open>Accessors\<close>

definition in_synchronized_state :: "BulkData \<Rightarrow> bool" where
  "in_synchronized_state m = m_in_synchronized_state m"

definition parallel_rank :: "BulkData \<Rightarrow> int" where
  "parallel_rank m = m_parallel_rank m"

definition parallel_size :: "BulkData \<Rightarrow> int" where
  "parallel_size m = m_parallel_size m"

definition bucket_ptr :: "BulkData \<Rightarrow> Entity \<Rightarrow> Bucket option" where
  "bucket_ptr m entity = m_mesh_indexes m entity"

text \<open>
  Modelled from the spec: \<open>is_valid\<close> is header-only. An entity is valid when its offset
  is in range and its mesh index has a bucket (\<open>generate_new_entity\<close> and
  \<open>record_entity_deletion\<close> set the bucket to \<open>nullptr\<close>,
  \<open>internal_move_entity_to_new_bucket\<close> gives it one).
\<close>

definition is_valid :: "BulkData \<Rightarrow> Entity \<Rightarrow> bool" where
  "is_valid m entity = (entity < m_mesh_indexes_size m \<and> m_mesh_indexes m entity \<noteq> None)"

definition entity_key :: "BulkData \<Rightarrow> Entity \<Rightarrow> EntityKey" where
  "entity_key m entity = m_entity_keys m entity"

definition entity_rank :: "BulkData \<Rightarrow> Entity \<Rightarrow> EntityRank" where
  "entity_rank m entity = fst (m_entity_keys m entity)"

definition identifier_of :: "BulkData \<Rightarrow> Entity \<Rightarrow> EntityId" where
  "identifier_of m entity = snd (m_entity_keys m entity)"

definition parallel_owner_rank :: "BulkData \<Rightarrow> Entity \<Rightarrow> int" where
  "parallel_owner_rank m entity = m_owner m entity"

definition state :: "BulkData \<Rightarrow> Entity \<Rightarrow> EntityState" where
  "state m entity = m_entity_state m entity"


text \<open>
  \<open>begin(entity, rank)\<close> to \<open>end(entity, rank)\<close>: the relations of the entity whose target
  has the given rank, in their stored order. \<open>num_connectivity\<close> is the length.
\<close>

definition connectivity :: "BulkData \<Rightarrow> Entity \<Rightarrow> EntityRank \<Rightarrow> Relation list" where
  "connectivity m entity irank =
     filter (\<lambda>r. entity_rank m (fst r) = irank) (m_connectivity m entity)"

definition num_connectivity :: "BulkData \<Rightarrow> Entity \<Rightarrow> EntityRank \<Rightarrow> nat" where
  "num_connectivity m entity irank = length (connectivity m entity irank)"

definition bucket_member :: "Bucket \<Rightarrow> PartOrdinal \<Rightarrow> bool" where
  "bucket_member b p = (p \<in> set (supersets b))"

definition member_all :: "Bucket \<Rightarrow> PartOrdinal list \<Rightarrow> bool" where
  "member_all b ps = list_all (bucket_member b) ps"

definition member_any :: "Bucket \<Rightarrow> PartOrdinal list \<Rightarrow> bool" where
  "member_any b ps = list_ex (bucket_member b) ps"

definition owned :: "MetaData \<Rightarrow> Bucket \<Rightarrow> bool" where
  "owned meta b = bucket_member b (locally_owned_part meta)"

definition shared :: "MetaData \<Rightarrow> Bucket \<Rightarrow> bool" where
  "shared meta b = bucket_member b (globally_shared_part meta)"

definition in_aura :: "MetaData \<Rightarrow> Bucket \<Rightarrow> bool" where
  "in_aura meta b = bucket_member b (aura_part meta)"

text \<open>The shared entries come first in an entity's sorted comm map.\<close>

definition internal_entity_comm_map_shared :: "BulkData \<Rightarrow> EntityKey \<Rightarrow> EntityCommInfo list" where
  "internal_entity_comm_map_shared m key =
     takeWhile (\<lambda>i. ghost_id i = SHARED) (m_entity_comm_map m key)"

text \<open>
  Modelled from the spec: \<open>in_receive_ghost(entity)\<close> is header-only. An entity is a
  received ghost when it has a comm entry of a ghosting other than the shared one and
  another process owns it.
\<close>

definition in_receive_ghost :: "BulkData \<Rightarrow> Entity \<Rightarrow> bool" where
  "in_receive_ghost m entity =
     (m_owner m entity \<noteq> m_parallel_rank m \<and>
      list_ex (\<lambda>i. ghost_id i \<noteq> SHARED) (m_entity_comm_map m (m_entity_keys m entity)))"

definition owned_closure :: "BulkData \<Rightarrow> Entity \<Rightarrow> bool" where
  "owned_closure m entity = (0 < m_closure_count m entity)"

definition determine_new_owner :: "BulkData \<Rightarrow> Entity \<Rightarrow> int" where
  "determine_new_owner m entity =
     determine_new_owner_of (is_valid m entity) (parallel_rank m) (parallel_size m)
       (internal_entity_comm_map_shared m (entity_key m entity))"

definition internal_set_owner :: "BulkData \<Rightarrow> Entity \<Rightarrow> int \<Rightarrow> BulkData" where
  "internal_set_owner m entity new_owner = m\<lparr> m_owner := (m_owner m)(entity := new_owner) \<rparr>"

subsection \<open>Requirements\<close>

definition require_ok_to_modify :: "BulkData \<Rightarrow> error + unit" where
  "require_ok_to_modify m = (if in_synchronized_state m then Inl NotOkToModify else Inr ())"

definition require_entity_owner :: "BulkData \<Rightarrow> Entity \<Rightarrow> int \<Rightarrow> error + unit" where
  "require_entity_owner m entity owner =
     (if 1 < parallel_size m \<and> bucket_ptr m entity \<noteq> None
      then (let error_not_owner = (owner \<noteq> parallel_owner_rank m entity)
            in if error_not_owner then Inl NotOwner else Inr ())
      else Inr ())"

text \<open>
  Modelled from the spec: \<open>impl::require_valid_relation\<close> is not among the sources.
  Relating entities of the same rank is a fatal error; both entities must be valid,
  since every later step of declaring or destroying the relation reads their buckets.
\<close>

definition require_valid_relation :: "BulkData \<Rightarrow> Entity \<Rightarrow> Entity \<Rightarrow> error + unit" where
  "require_valid_relation m e_from e_to =
     (if entity_rank m e_from = entity_rank m e_to \<or> \<not> is_valid m e_from \<or> \<not> is_valid m e_to
      then Inl InvalidRelation else Inr ())"

subsection \<open>Part ordinals\<close>

text \<open>
  Modelled from the spec: the helpers on ordinal vectors (\<open>stk::util\<close> and \<open>impl::\<close>) are
  not among the sources. They follow their names and uses: vectors of part ordinals are
  kept sorted and free of duplicates.
\<close>

definition sort_and_unique :: "PartOrdinal list \<Rightarrow> PartOrdinal list" where
  "sort_and_unique xs = remdups_adj (sort xs)"

definition contains_ordinal :: "PartOrdinal list \<Rightarrow> PartOrdinal \<Rightarrow> bool" where
  "contains_ordinal xs p = (p \<in> set xs)"

definition insert_ordinal :: "PartOrdinal list \<Rightarrow> PartOrdinal \<Rightarrow> PartOrdinal list" where
  "insert_ordinal xs p = sort_and_unique (p # xs)"

definition fill_add_parts_and_supersets :: "MetaData \<Rightarrow> PartOrdinal list \<Rightarrow> PartOrdinal list" where
  "fill_add_parts_and_supersets meta add_parts =
     sort_and_unique (add_parts @ concat (map (part_supersets meta) add_parts))"

text \<open>
  The parts to remove that are not added, with those of their subsets the entity's
  bucket is a member of. The bucket is read only for a part that has subsets.
\<close>

definition fill_remove_parts_and_subsets_minus_parts_in_add_parts_list ::
  "MetaData \<Rightarrow> PartOrdinal list \<Rightarrow> PartOrdinal list \<Rightarrow> Bucket option \<Rightarrow> error + PartOrdinal list" where
  "fill_remove_parts_and_subsets_minus_parts_in_add_parts_list meta remove_parts addPartsAndSupersets entityBucket =
     fold_err (\<lambda>p acc.
        if contains_ordinal addPartsAndSupersets p then Inr acc
        else if part_subsets meta p = [] then Inr (insert_ordinal acc p)
        else (case entityBucket of
                None \<Rightarrow> Inl NullBucket
              | Some b \<Rightarrow> Inr (foldl insert_ordinal (insert_ordinal acc p)
                                (filter (bucket_member b) (part_subsets meta p)))))
       remove_parts []"

definition are_any_parts_ranked :: "MetaData \<Rightarrow> PartOrdinal list \<Rightarrow> bool" where
  "are_any_parts_ranked meta ps = list_ex (part_is_ranked meta) ps"

definition fill_inducible_parts_from_list :: "MetaData \<Rightarrow> PartOrdinal list \<Rightarrow> EntityRank \<Rightarrow> PartOrdinal list" where
  "fill_inducible_parts_from_list meta ps rank = filter (\<lambda>p. part_should_induce meta p rank) ps"

definition filter_out :: "PartOrdinal list \<Rightarrow> PartOrdinal list \<Rightarrow> bool \<Rightarrow> PartOrdinal list \<times> PartOrdinal list" where
  "filter_out vec ps trackRemoved =
     (filter (\<lambda>p. p \<notin> set ps) vec, if trackRemoved then filter (\<lambda>p. p \<in> set vec) ps else [])"

definition merge_in :: "PartOrdinal list \<Rightarrow> PartOrdinal list \<Rightarrow> PartOrdinal list" where
  "merge_in vec ps = sort_and_unique (vec @ ps)"

text \<open>
  Modelled from the spec: \<open>impl::get_part_ordinals_to_induce_on_lower_ranks\<close> and its
  variant with omitted parts are not among the sources. A lower-rank entity acquires
  every inducible part held by a higher-rank entity connected to it; the parts are
  added to the vector passed in.
\<close>

definition get_part_ordinals_to_induce_on_lower_ranks_except_for_omits ::
  "MetaData \<Rightarrow> Bucket \<Rightarrow> PartOrdinal list \<Rightarrow> EntityRank \<Rightarrow> PartOrdinal list \<Rightarrow> PartOrdinal list" where
  "get_part_ordinals_to_induce_on_lower_ranks_except_for_omits meta bucket_from omit entity_rank_to induced_parts =
     foldl insert_ordinal induced_parts
       (filter (\<lambda>p. entity_rank_to < bucket_entity_rank bucket_from
                    \<and> part_should_induce meta p (bucket_entity_rank bucket_from)
                    \<and> \<not> contains_ordinal omit p)
          (supersets bucket_from))"

definition get_part_ordinals_to_induce_on_lower_ranks ::
  "MetaData \<Rightarrow> Bucket \<Rightarrow> EntityRank \<Rightarrow> PartOrdinal list \<Rightarrow> PartOrdinal list" where
  "get_part_ordinals_to_induce_on_lower_ranks meta bucket_from entity_rank_to induced_parts =
     get_part_ordinals_to_induce_on_lower_ranks_except_for_omits meta bucket_from [] entity_rank_to induced_parts"

subsection \<open>Entity states and closure counts\<close>

definition set_state :: "BulkData \<Rightarrow> Entity \<Rightarrow> EntityState \<Rightarrow> BulkData" where
  "set_state m entity st = m\<lparr> m_entity_state := (m_entity_state m)(entity := st) \<rparr>"

text \<open>
  Modelled from the spec: \<open>impl::VisitUpwardClosureGeneral\<close> is not among the sources.
  An entity in state \<open>Unchanged\<close> becomes \<open>Modified\<close>, and the marking is propagated upward
  through all its relations to entities of higher rank. The rank of the entity is passed
  along: the relations read at rank \<open>rank_up\<close> lead to entities of that rank.
\<close>

function mark_upward :: "nat \<Rightarrow> EntityRank \<Rightarrow> Entity \<Rightarrow> BulkData \<Rightarrow> BulkData" where
  "mark_upward end_rank erank entity m =
     (if state m entity \<noteq> Unchanged then m
      else fold (\<lambda>rank_up m'.
                   fold (\<lambda>r m''. mark_upward end_rank rank_up (fst r) m'')
                     (connectivity m' entity rank_up) m')
             (rev [Suc erank..<end_rank])
             (set_state m entity Modified))"
  by pat_completeness auto
termination
  by (relation "measure (\<lambda>(end_rank, erank, entity, m). end_rank - erank)") auto

declare mark_upward.simps [simp del]

definition mark_entity_and_upward_related_entities_as_modified :: "BulkData \<Rightarrow> Entity \<Rightarrow> BulkData" where
  "mark_entity_and_upward_related_entities_as_modified m entity =
     mark_upward (entity_rank_count (m_mesh_meta_data m)) (entity_rank m entity) entity m"

definition unprotect_orphaned_node :: "BulkData \<Rightarrow> Entity \<Rightarrow> BulkData" where
  "unprotect_orphaned_node m entity =
     m\<lparr> m_closure_count := (m_closure_count m)
          (entity := unprotect_count m (entity_rank m entity) (state m entity) (m_closure_count m entity)) \<rparr>"

text \<open>\<open>m_closure_count[...] += adjustment\<close> on \<open>uint16_t\<close>: the sum wraps around.\<close>

definition adjust_closure_count :: "BulkData \<Rightarrow> Entity \<Rightarrow> 16 word \<Rightarrow> BulkData" where
  "adjust_closure_count m entity adj =
     m\<lparr> m_closure_count := (m_closure_count m)(entity := m_closure_count m entity + adj) \<rparr>"

definition internal_adjust_entity_and_downward_connectivity_closure_count ::
  "BulkData \<Rightarrow> Entity \<Rightarrow> Bucket option \<Rightarrow> 16 word \<Rightarrow> BulkData" where
  "internal_adjust_entity_and_downward_connectivity_closure_count m entity bucket_old closureCountAdjustment =
     (let m1 = adjust_closure_count m entity closureCountAdjustment
      in case bucket_old of
           None \<Rightarrow> m1
         | Some b \<Rightarrow>
             fold (\<lambda>rank m'.
                     fold (\<lambda>r m''. adjust_closure_count m'' (fst r) closureCountAdjustment)
                       (connectivity m' entity rank) m')
               [NODE_RANK..<bucket_entity_rank b] m1)"

definition internal_adjust_closure_count ::
  "BulkData \<Rightarrow> Entity \<Rightarrow> PartOrdinal list \<Rightarrow> PartOrdinal list \<Rightarrow> BulkData" where
  "internal_adjust_closure_count m entity add_parts remove_parts =
     (let bucket = bucket_ptr m entity;
          locally_owned_ordinal = locally_owned_part (m_mesh_meta_data m);
          isInOwnedPart = (case bucket of None \<Rightarrow> False | Some b \<Rightarrow> owned (m_mesh_meta_data m) b);
          add_to_locally_owned_part = (\<not> isInOwnedPart \<and> contains_ordinal add_parts locally_owned_ordinal);
          remove_from_locally_owned_part = (isInOwnedPart \<and> contains_ordinal remove_parts locally_owned_ordinal)
      in if add_to_locally_owned_part
         then internal_adjust_entity_and_downward_connectivity_closure_count
                (unprotect_orphaned_node m entity) entity bucket 1
         else if remove_from_locally_owned_part
         then internal_adjust_entity_and_downward_connectivity_closure_count m entity bucket (- 1)
         else m)"

subsection \<open>Changing the parts of an entity\<close>

definition internal_fill_new_part_list_and_removed_part_list ::
  "MetaData \<Rightarrow> Bucket option \<Rightarrow> PartOrdinal list \<Rightarrow> PartOrdinal list \<Rightarrow> PartOrdinal list \<times> PartOrdinal list" where
  "internal_fill_new_part_list_and_removed_part_list meta bucket_old add_parts remove_parts =
     (let (l1, ranked_parts_removed) =
            (case bucket_old of
               Some b \<Rightarrow>
                 if remove_parts \<noteq> []
                 then filter_out (supersets b) remove_parts (are_any_parts_ranked meta remove_parts)
                 else (supersets b, [])
             | None \<Rightarrow> ([], []));
          l2 = (if add_parts \<noteq> [] then merge_in l1 add_parts else l1);
          l3 = (if l2 = [] then [universal_part meta] else l2)
      in (sort_and_unique l3, ranked_parts_removed))"

text \<open>
  The bucket repository moves the entity to the bucket of its rank with the new part
  list (a first bucket takes the rank from the entity's key); then the entity and the
  entities above it are marked modified. The flag that a communicated entity changed
  parts is not part of the model.
\<close>

definition internal_move_entity_to_new_bucket :: "BulkData \<Rightarrow> Entity \<Rightarrow> PartOrdinal list \<Rightarrow> BulkData" where
  "internal_move_entity_to_new_bucket m entity newBucketPartList =
     (let rank = (case bucket_ptr m entity of Some b \<Rightarrow> bucket_entity_rank b | None \<Rightarrow> entity_rank m entity);
          m1 = m\<lparr> m_mesh_indexes := (m_mesh_indexes m)
                 (entity := Some \<lparr> bucket_entity_rank = rank, supersets = newBucketPartList \<rparr>) \<rparr>
      in mark_entity_and_upward_related_entities_as_modified m1 entity)"

definition internal_change_entity_parts_without_propagating_to_downward_connected_entities ::
  "BulkData \<Rightarrow> Entity \<Rightarrow> PartOrdinal list \<Rightarrow> PartOrdinal list \<Rightarrow> BulkData \<times> PartOrdinal list" where
  "internal_change_entity_parts_without_propagating_to_downward_connected_entities m entity add_parts remove_parts =
     (let m1 = internal_adjust_closure_count m entity add_parts remove_parts;
          (newBucketPartList, ranked_parts_removed) =
             internal_fill_new_part_list_and_removed_part_list (m_mesh_meta_data m1) (bucket_ptr m1 entity)
               add_parts remove_parts
      in (internal_move_entity_to_new_bucket m1 entity newBucketPartList, ranked_parts_removed))"

definition internal_fill_parts_to_actually_remove ::
  "PartOrdinal list \<Rightarrow> PartOrdinal list \<Rightarrow> PartOrdinal list" where
  "internal_fill_parts_to_actually_remove parts_to_remove_assuming_not_induced_from_other_entities
       partsThatShouldStillBeInduced =
     foldl insert_ordinal []
       (filter (\<lambda>p. \<not> contains_ordinal partsThatShouldStillBeInduced p)
          parts_to_remove_assuming_not_induced_from_other_entities)"

definition internal_insert_all_parts_induced_from_higher_rank_entities_to_vector ::
  "BulkData \<Rightarrow> Entity \<Rightarrow> Entity \<Rightarrow> PartOrdinal list \<Rightarrow> error + PartOrdinal list" where
  "internal_insert_all_parts_induced_from_higher_rank_entities_to_vector m entity e_to to_add =
     (let e_to_rank = entity_rank m e_to;
          start_rank = Suc e_to_rank;
          end_rank = entity_rank_count (m_mesh_meta_data m)
      in fold_err (\<lambda>to_rel_rank_i acc.
           fold_err (\<lambda>r acc'.
              if entity \<noteq> fst r
              then (case bucket_ptr m (fst r) of
                      None \<Rightarrow> Inl NullBucket
                    | Some curBucket \<Rightarrow>
                        Inr (get_part_ordinals_to_induce_on_lower_ranks (m_mesh_meta_data m) curBucket e_to_rank acc'))
              else Inr acc')
             (connectivity m e_to to_rel_rank_i) acc)
          [start_rank..<end_rank] to_add)"

text \<open>
  \<open>internal_change_entity_parts\<close> and, inlined, the propagation of induced parts to the
  downward connected entities, which calls it again for each of them. The rank of the
  entity is passed along (the keys do not change here): the relations read at rank
  \<open>irank\<close> lead to entities of that rank, all below the rank of the entity.
\<close>

function internal_change_entity_parts_of_rank ::
  "EntityRank \<Rightarrow> Entity \<Rightarrow> PartOrdinal list \<Rightarrow> PartOrdinal list \<Rightarrow> BulkData \<Rightarrow> error + BulkData" where
  "internal_change_entity_parts_of_rank erank entity add_parts remove_parts m =
     then_do (require_ok_to_modify m) (\<lambda>_.
       let bucket_old = bucket_ptr m entity;
           needToChangeParts =
             (case bucket_old of
                None \<Rightarrow> True
              | Some b \<Rightarrow> \<not> member_all b add_parts \<or> member_any b remove_parts)
       in if \<not> needToChangeParts then Inr m
          else
            let (m1, parts_removed) =
                  internal_change_entity_parts_without_propagating_to_downward_connected_entities
                    m entity add_parts remove_parts
            in if are_any_parts_ranked (m_mesh_meta_data m1) add_parts \<or> parts_removed \<noteq> []
               then
                 let addParts = fill_inducible_parts_from_list (m_mesh_meta_data m1) add_parts erank;
                     parts_to_remove = fill_inducible_parts_from_list (m_mesh_meta_data m1) parts_removed erank
                 in fold_err (\<lambda>irank m2.
                      fold_err (\<lambda>r m3.
                         let e_to = fst r
                         in if e_to = InvalidEntity then Inr m3
                            else
                              then_do
                                (if parallel_size m3 = 1 then Inr False
                                 else (case bucket_ptr m3 e_to of
                                         None \<Rightarrow> Inl NullBucket
                                       | Some b \<Rightarrow> Inr (shared (m_mesh_meta_data m3) b)))
                                (\<lambda>remote_changes_needed.
                                   if remote_changes_needed
                                   then internal_change_entity_parts_of_rank irank e_to addParts []
                                          (mark_entity_and_upward_related_entities_as_modified m3 e_to)
                                   else if parts_to_remove \<noteq> []
                                   then then_do
                                          (internal_insert_all_parts_induced_from_higher_rank_entities_to_vector
                                             m3 entity e_to [])
                                          (\<lambda>scratchSpace.
                                             internal_change_entity_parts_of_rank irank e_to addParts
                                               (internal_fill_parts_to_actually_remove parts_to_remove scratchSpace)
                                               m3)
                                   else internal_change_entity_parts_of_rank irank e_to addParts [] m3))
                        (connectivity m2 entity irank) m2)
                     [0..<erank] m1
               else Inr m1)"
  by pat_completeness auto
termination
  by (relation "measure (\<lambda>(erank, entity, add_parts, remove_parts, m). erank)") auto

declare internal_change_entity_parts_of_rank.simps [simp del]

definition internal_change_entity_parts ::
  "BulkData \<Rightarrow> Entity \<Rightarrow> PartOrdinal list \<Rightarrow> PartOrdinal list \<Rightarrow> error + BulkData" where
  "internal_change_entity_parts m entity add_parts remove_parts =
     internal_change_entity_parts_of_rank (entity_rank m entity) entity add_parts remove_parts m"

definition internal_verify_and_change_entity_parts ::
  "BulkData \<Rightarrow> Entity \<Rightarrow> PartOrdinal list \<Rightarrow> PartOrdinal list \<Rightarrow> error + BulkData" where
  "internal_verify_and_change_entity_parts m entity add_parts remove_parts =
     then_do (require_ok_to_modify m) (\<lambda>_.
     then_do (if sierra_migration m \<and> \<not> m_add_fmwk_data m
              then require_entity_owner m entity (parallel_rank m) else Inr ()) (\<lambda>_.
       let addPartsAndSupersets = fill_add_parts_and_supersets (m_mesh_meta_data m) add_parts
       in then_do (fill_remove_parts_and_subsets_minus_parts_in_add_parts_list (m_mesh_meta_data m)
                     remove_parts addPartsAndSupersets (bucket_ptr m entity))
            (\<lambda>removePartsAndSubsetsMinusPartsInAddPartsList.
               internal_change_entity_parts m entity addPartsAndSupersets
                 removePartsAndSubsetsMinusPartsInAddPartsList)))"

subsection \<open>Declaring entities\<close>

text \<open>
  \<open>generate_new_entity(unsigned preferred_offset)\<close>: the offset is the preferred one when
  it is not 0, else the front of the free list, else a new slot at the end of the
  vectors. The preferred offset is a 32-bit \<open>unsigned\<close>. The offsets of the free list and
  the preferred offsets that the callers pass (offsets of the ghost reuse map) are below
  the size of the vectors. The new entity has no bucket and hence no connectivity.
\<close>

definition generate_new_entity :: "BulkData \<Rightarrow> 32 word \<Rightarrow> BulkData \<times> Entity" where
  "generate_new_entity m preferred_offset =
     (let size = m_mesh_indexes_size m;
          (new_local_offset, m0) =
             (if preferred_offset \<noteq> 0 then (unat preferred_offset, m)
              else (case m_deleted_entities m of
                      [] \<Rightarrow> (size, m)
                    | d # ds \<Rightarrow> (d, m\<lparr> m_deleted_entities := ds \<rparr>)));
          m1 = m0\<lparr> m_mesh_indexes := (m_mesh_indexes m0)(new_local_offset := None),
                   m_entity_keys := (m_entity_keys m0)(new_local_offset := invalid_key),
                   m_owner := (m_owner m0)(new_local_offset := parallel_rank m0),
                   m_entity_state := (m_entity_state m0)(new_local_offset := Created),
                   m_closure_count := (m_closure_count m0)(new_local_offset := 0),
                   m_connectivity := (m_connectivity m0)(new_local_offset := []) \<rparr>
      in (if new_local_offset = size then m1\<lparr> m_mesh_indexes_size := Suc size \<rparr> else m1,
          new_local_offset))"

text \<open>
  \<open>internal_create_entity(EntityKey key, size_t preferred_offset)\<close>: the entity repository
  (not among the sources) returns the entity of a key it knows, else it records the key
  for a new entity. The preferred offset is a 64-bit \<open>size_t\<close>; passing it to
  \<open>generate_new_entity\<close> converts it to \<open>unsigned\<close>, which keeps its low 32 bits.
\<close>

definition internal_create_entity :: "BulkData \<Rightarrow> EntityKey \<Rightarrow> 64 word \<Rightarrow> BulkData \<times> Entity \<times> bool" where
  "internal_create_entity m key preferred_offset =
     (case m_entity_repo m key of
        Some e \<Rightarrow> (m, e, False)
      | None \<Rightarrow>
          (let (m1, e) = generate_new_entity m (ucast preferred_offset)
           in (m1\<lparr> m_entity_repo := (m_entity_repo m1)(key \<mapsto> e),
                    m_entity_keys := (m_entity_keys m1)(e := key) \<rparr>, e, True)))"

text \<open>
  \<open>internal_get_or_create_entity_with_notification\<close>: the notification of the observers
  is not part of the model.
\<close>

definition internal_get_or_create_entity_with_notification ::
  "BulkData \<Rightarrow> EntityKey \<Rightarrow> 64 word \<Rightarrow> BulkData \<times> Entity \<times> bool" where
  "internal_get_or_create_entity_with_notification m key preferred_offset =
     internal_create_entity m key preferred_offset"

definition internal_declare_entity ::
  "BulkData \<Rightarrow> EntityRank \<Rightarrow> EntityId \<Rightarrow> PartOrdinal list \<Rightarrow> error + (BulkData \<times> Entity)" where
  "internal_declare_entity m ent_rank ent_id parts =
     then_do (require_ok_to_modify m) (\<lambda>_.
     then_do (require_good_rank_and_id (m_mesh_meta_data m) ent_rank ent_id) (\<lambda>_.
       let key = (ent_rank, ent_id);
           (m1, declared_entity, created) = internal_get_or_create_entity_with_notification m key 0
       in then_do (if \<not> created then require_entity_owner m1 declared_entity (parallel_rank m1) else Inr ()) (\<lambda>_.
          let owns = locally_owned_part (m_mesh_meta_data m1);
              add = parts @ [owns]
          in then_do (internal_verify_and_change_entity_parts m1 declared_entity add []) (\<lambda>m2.
               Inr (if created then internal_set_owner m2 declared_entity (parallel_rank m2) else m2,
                    declared_entity)))))"

text \<open>\<open>declare_entity\<close> with parts, and \<open>declare_entity(rank, id)\<close>, which refuses the side rank.\<close>

definition declare_entity ::
  "BulkData \<Rightarrow> EntityRank \<Rightarrow> EntityId \<Rightarrow> PartOrdinal list \<Rightarrow> error + (BulkData \<times> Entity)" where
  "declare_entity m ent_rank ent_id parts = internal_declare_entity m ent_rank ent_id parts"

definition declare_entity_in_universal_part ::
  "BulkData \<Rightarrow> EntityRank \<Rightarrow> EntityId \<Rightarrow> error + (BulkData \<times> Entity)" where
  "declare_entity_in_universal_part m ent_rank ent_id =
     (if ent_rank = side_rank (m_mesh_meta_data m) then Inl SideRankNotSupported
      else internal_declare_entity m ent_rank ent_id [universal_part (m_mesh_meta_data m)])"

subsection \<open>Declaring and destroying relations\<close>

text \<open>
  Modelled from the spec: \<open>Bucket::declare_relation\<close> and \<open>Bucket::destroy_relation\<close> are
  not among the sources. Declaring adds the entry (target, ordinal, permutation) to the
  entity's connectivity unless an entry for this target and ordinal is there (a no-op
  re-declare), and tells whether it changed anything; destroying removes the entries
  for the target and ordinal and tells whether there was one.
\<close>

definition has_relation :: "BulkData \<Rightarrow> Entity \<Rightarrow> Entity \<Rightarrow> ConnectivityOrdinal \<Rightarrow> bool" where
  "has_relation m e_from e_to ordinal =
     list_ex (\<lambda>r. fst r = e_to \<and> fst (snd r) = ordinal) (m_connectivity m e_from)"

definition bucket_declare_relation ::
  "BulkData \<Rightarrow> Entity \<Rightarrow> Entity \<Rightarrow> ConnectivityOrdinal \<Rightarrow> Permutation \<Rightarrow> BulkData \<times> bool" where
  "bucket_declare_relation m e_from e_to ordinal permut =
     (if has_relation m e_from e_to ordinal then (m, False)
      else (m\<lparr> m_connectivity := (m_connectivity m)
                 (e_from := m_connectivity m e_from @ [(e_to, ordinal, permut)]) \<rparr>, True))"

definition bucket_destroy_relation ::
  "BulkData \<Rightarrow> Entity \<Rightarrow> Entity \<Rightarrow> ConnectivityOrdinal \<Rightarrow> BulkData \<times> bool" where
  "bucket_destroy_relation m e_from e_to ordinal =
     (if has_relation m e_from e_to ordinal
      then (m\<lparr> m_connectivity := (m_connectivity m)
                 (e_from := filter (\<lambda>r. \<not> (fst r = e_to \<and> fst (snd r) = ordinal)) (m_connectivity m e_from)) \<rparr>,
            True)
      else (m, False))"

text \<open>The overload of \<open>internal_declare_relation\<close> that adds one direction.\<close>

definition internal_declare_relation_one_way ::
  "BulkData \<Rightarrow> Entity \<Rightarrow> Entity \<Rightarrow> ConnectivityOrdinal \<Rightarrow> Permutation \<Rightarrow> error + (BulkData \<times> bool)" where
  "internal_declare_relation_one_way m e_from e_to local_id permut =
     (case bucket_ptr m e_from of
        None \<Rightarrow> Inl NullBucket
      | Some idx_bucket \<Rightarrow>
          (let (m1, modified) = bucket_declare_relation m e_from e_to local_id permut;
               meta = m_mesh_meta_data m1
           in if modified
              then
                then_do
                  (if owned meta idx_bucket then Inr (unprotect_orphaned_node m1 e_to)
                   else if in_aura meta idx_bucket
                   then (case bucket_ptr m1 e_to of
                           None \<Rightarrow> Inl NullBucket
                         | Some b_to \<Rightarrow> Inr (if owned meta b_to then unprotect_orphaned_node m1 e_to else m1))
                   else Inr m1)
                  (\<lambda>m2. Inr (if owned meta idx_bucket \<and> entity_rank m2 e_to < bucket_entity_rank idx_bucket
                              then adjust_closure_count m2 e_to 1 else m2,
                              modified))
              else Inr (m1, modified)))"

definition internal_declare_relation ::
  "BulkData \<Rightarrow> Entity \<Rightarrow> Entity \<Rightarrow> ConnectivityOrdinal \<Rightarrow> Permutation \<Rightarrow> error + BulkData" where
  "internal_declare_relation m e_from e_to local_id permut =
     then_do (require_ok_to_modify m) (\<lambda>_.
     then_do (require_valid_relation m e_from e_to) (\<lambda>_.
     then_do (internal_declare_relation_one_way m e_from e_to local_id permut) (\<lambda>(m1, is_new_relation).
     then_do (if is_new_relation
              then then_do (internal_declare_relation_one_way m1 e_to e_from local_id permut) (\<lambda>(m2, _). Inr m2)
              else Inr m1) (\<lambda>m2.
       let m3 = (if is_new_relation
                 then mark_entity_and_upward_related_entities_as_modified
                        (mark_entity_and_upward_related_entities_as_modified m2 e_to) e_from
                 else m2)
       in (case bucket_ptr m3 e_from of
             None \<Rightarrow> Inl NullBucket
           | Some bucketFrom \<Rightarrow>
               internal_change_entity_parts m3 e_to
                 (get_part_ordinals_to_induce_on_lower_ranks (m_mesh_meta_data m3) bucketFrom (entity_rank m3 e_to) [])
                 [])))))"

definition declare_relation ::
  "BulkData \<Rightarrow> Entity \<Rightarrow> Entity \<Rightarrow> ConnectivityOrdinal \<Rightarrow> Permutation \<Rightarrow> error + BulkData" where
  "declare_relation m e_from e_to local_id permut = internal_declare_relation m e_from e_to local_id permut"

text \<open>
  \<open>internal_destroy_relation\<close>. The parts induced by the kept relations of \<open>e_to\<close> are
  collected from the bucket of every remaining higher-rank entity (the code skips a
  bucket equal to the one before it, which adds nothing to the sorted vector).
\<close>

definition internal_destroy_relation ::
  "BulkData \<Rightarrow> Entity \<Rightarrow> Entity \<Rightarrow> ConnectivityOrdinal \<Rightarrow> error + (BulkData \<times> bool)" where
  "internal_destroy_relation m e_from e_to local_id =
     then_do (require_ok_to_modify m) (\<lambda>_.
     then_do (require_valid_relation m e_from e_to) (\<lambda>_.
       let end_rank = entity_rank_count (m_mesh_meta_data m);
           e_to_entity_rank = entity_rank m e_to
       in
       then_do
         (if parallel_size m < 2 \<or> internal_entity_comm_map_shared m (entity_key m e_to) = []
          then
            then_do
              (fold_err (\<lambda>irank keep.
                  fold_err (\<lambda>r keep'.
                     if \<not> (fst r = e_from \<and> fst (snd r) = local_id)
                     then (case bucket_ptr m (fst r) of
                             None \<Rightarrow> Inl NullBucket
                           | Some curBucket \<Rightarrow>
                               Inr (get_part_ordinals_to_induce_on_lower_ranks (m_mesh_meta_data m)
                                      curBucket e_to_entity_rank keep'))
                     else Inr keep')
                    (connectivity m e_to irank) keep)
                 [Suc e_to_entity_rank..<end_rank] [])
              (\<lambda>keep.
                 then_do
                   (if list_ex (\<lambda>r. fst r = e_to \<and> fst (snd r) = local_id) (connectivity m e_from e_to_entity_rank)
                    then (case bucket_ptr m e_from of
                            None \<Rightarrow> Inl NullBucket
                          | Some b_from \<Rightarrow>
                              Inr (get_part_ordinals_to_induce_on_lower_ranks_except_for_omits
                                     (m_mesh_meta_data m) b_from keep e_to_entity_rank []))
                    else Inr [])
                   (\<lambda>del. if del \<noteq> [] then internal_change_entity_parts m e_to [] del else Inr m))
          else Inr m)
         (\<lambda>m1.
            case bucket_ptr m1 e_from of
              None \<Rightarrow> Inl NullBucket
            | Some b_from \<Rightarrow>
               (let meta = m_mesh_meta_data m1;
                    (m2, caused_change_fwd) = bucket_destroy_relation m1 e_from e_to local_id;
                    m3 = (if caused_change_fwd \<and> owned meta b_from \<and> entity_rank m2 e_to < entity_rank m2 e_from
                          then adjust_closure_count m2 e_to (- 1) else m2)
                in if caused_change_fwd
                   then (case bucket_ptr m3 e_to of
                           None \<Rightarrow> Inl NullBucket
                         | Some b_to \<Rightarrow>
                            (let (m4, caused_change) = bucket_destroy_relation m3 e_to e_from local_id;
                                 m5 = (if caused_change \<and> owned meta b_to \<and> entity_rank m4 e_from < entity_rank m4 e_to
                                       then adjust_closure_count m4 e_from (- 1) else m4)
                             in Inr (mark_entity_and_upward_related_entities_as_modified
                                       (mark_entity_and_upward_related_entities_as_modified m5 e_to) e_from,
                                     caused_change_fwd)))
                   else Inr (m3, caused_change_fwd)))))"

definition destroy_relation ::
  "BulkData \<Rightarrow> Entity \<Rightarrow> Entity \<Rightarrow> ConnectivityOrdinal \<Rightarrow> error + (BulkData \<times> bool)" where
  "destroy_relation m e_from e_to local_id = internal_destroy_relation m e_from e_to local_id"

subsection \<open>Destroying entities\<close>

text \<open>
  Modelled from the spec: \<open>impl::has_upward_connectivity\<close> is not among the sources. The
  entity has upward connectivity when it has a relation to an entity of a higher rank.
\<close>

definition has_upward_connectivity :: "BulkData \<Rightarrow> Entity \<Rightarrow> bool" where
  "has_upward_connectivity m entity =
     list_ex (\<lambda>irank. 0 < num_connectivity m entity irank)
       [Suc (entity_rank m entity)..<entity_rank_count (m_mesh_meta_data m)]"

text \<open>
  The entry of the sorted comm list found by \<open>std::lower_bound\<close> on the key loses its
  entity handle when its key is the key of the destroyed entity.
\<close>

definition invalidate_comm_list_entry :: "(EntityKey \<times> Entity) list \<Rightarrow> EntityKey \<Rightarrow> (EntityKey \<times> Entity) list" where
  "invalidate_comm_list_entry l key =
     (let lb = length (takeWhile (\<lambda>i. fst i < key) l)
      in if lb < length l \<and> fst (l ! lb) = key then l[lb := (key, InvalidEntity)] else l)"

text \<open>
  \<open>record_entity_deletion\<close>, with the removal of the entity from its bucket, which drops
  its connectivity; the repository forgets the key.
\<close>

definition record_entity_deletion :: "BulkData \<Rightarrow> Entity \<Rightarrow> BulkData" where
  "record_entity_deletion m entity =
     (let key = entity_key m entity
      in m\<lparr> m_mesh_indexes := (m_mesh_indexes m)(entity := None),
             m_entity_repo := (m_entity_repo m)(key := None),
             m_entity_state := (m_entity_state m)(entity := Deleted),
             m_closure_count := (m_closure_count m)(entity := 0) \<rparr>)"

text \<open>
  \<open>internal_destroy_entity\<close>. The relations are destroyed from the highest rank to the
  lowest and, within a rank, from the last to the first, as read before the loop over
  the rank.
\<close>

definition internal_destroy_entity :: "BulkData \<Rightarrow> Entity \<Rightarrow> bool \<Rightarrow> error + (BulkData \<times> bool)" where
  "internal_destroy_entity m entity wasGhost =
     then_do (require_ok_to_modify m) (\<lambda>_.
       if \<not> is_valid m entity then Inr (m, False)
       else
         let ghost = (wasGhost \<or> in_receive_ghost m entity);
             end_rank = entity_rank_count (m_mesh_meta_data m)
         in if has_upward_connectivity m entity then Inr (m, False)
            else
              then_do
                (fold_err (\<lambda>irank m1.
                    fold_err (\<lambda>r m2.
                       if is_valid m2 (fst r)
                       then then_do (internal_destroy_relation m2 entity (fst r) (fst (snd r)))
                              (\<lambda>(m3, _). Inr m3)
                       else Inr m2)
                      (rev (connectivity m1 entity irank)) m1)
                   (rev [0..<end_rank]) m)
                (\<lambda>m4.
                   let key = entity_key m4 entity;
                       m5 = (if ghost then m4\<lparr> m_ghost_reuse_map := (m_ghost_reuse_map m4)(key \<mapsto> entity) \<rparr> else m4);
                       m6 = m5\<lparr> m_entity_comm_list := invalidate_comm_list_entry (m_entity_comm_list m5) key \<rparr>;
                       m7 = m6\<lparr> m_connectivity := (m_connectivity m6)(entity := []) \<rparr>;
                       m8 = record_entity_deletion m7 entity;
                       m9 = (if \<not> ghost
                             then m8\<lparr> m_deleted_entities_current_modification_cycle :=
                                        entity # m_deleted_entities_current_modification_cycle m8 \<rparr>
                             else m8)
                   in Inr (m9, True)))"

definition destroy_entity :: "BulkData \<Rightarrow> Entity \<Rightarrow> bool \<Rightarrow> error + (BulkData \<times> bool)" where
  "destroy_entity m entity wasGhost = internal_destroy_entity m entity wasGhost"

subsection \<open>Declaring the side of an element\<close>





subsection \<open>Part ownership after the resolution of owners\<close>

text \<open>
  The loop of \<open>move_entities_to_proper_part_ownership\<close> over the shared modified
  entities, last to first, with the error flag it sets.
\<close>

definition move_entity_to_proper_part_ownership :: "Entity \<Rightarrow> BulkData \<times> int \<Rightarrow> error + (BulkData \<times> int)" where
  "move_entity_to_proper_part_ownership entity st =
     (let m = fst st; error_flag = snd st;
          shared_part = [globally_shared_part (m_mesh_meta_data m)];
          owned_part = [locally_owned_part (m_mesh_meta_data m)];
          m1 = (if parallel_owner_rank m entity = parallel_rank m \<and> state m entity = Created
                then internal_set_owner m entity (determine_new_owner m entity) else m)
      in then_do
           (if parallel_owner_rank m1 entity \<noteq> parallel_rank m1
            then internal_change_entity_parts m1 entity shared_part owned_part
            else if internal_entity_comm_map_shared m1 (entity_key m1 entity) \<noteq> []
            then internal_change_entity_parts (unprotect_orphaned_node m1 entity) entity shared_part []
            else internal_change_entity_parts m1 entity [] shared_part)
           (\<lambda>m2. let isEntityGhost = (\<not> owned_closure m2 entity \<and> state m2 entity = Created)
                  in Inr (m2, if isEntityGhost \<and> error_flag = 0 then 1 else error_flag)))"

definition move_entities_loop :: "BulkData \<Rightarrow> Entity list \<Rightarrow> error + (BulkData \<times> int)" where
  "move_entities_loop m shared_modified =
     fold_err move_entity_to_proper_part_ownership (rev shared_modified) (m, 0)"

text \<open>
  Modelled from the spec: \<open>all_reduce\<close> with \<open>ReduceMax<1>\<close> is a collective of the
  parallel machine; every process contributes its value and every process receives
  the maximum of the values contributed.
\<close>

definition all_reduce_max :: "int list \<Rightarrow> int" where
  "all_reduce_max flags = foldr max flags 0"

text \<open>\<open>ThrowErrorMsgIf(error_flag, ...)\<close> after the collective, on one process.\<close>

definition throw_if_error_flag :: "int \<Rightarrow> BulkData \<Rightarrow> error + BulkData" where
  "throw_if_error_flag error_flag m = (if error_flag \<noteq> 0 then Inl ParallelConsistencyError else Inr m)"

text \<open>
  \<open>move_entities_to_proper_part_ownership\<close> run by all processes: the list holds, per
  process, its mesh and its shared modified entities. When the loop of every process
  ends without an exception, all processes enter the collective and each gets a
  result; when the loop of some process raises, the collective cannot complete and
  there is no joint result.
\<close>

fun all_returned :: "(error + 'a) list \<Rightarrow> 'a list option" where
  "all_returned [] = Some []"
| "all_returned (Inl e # rs) = None"
| "all_returned (Inr x # rs) = (case all_returned rs of None \<Rightarrow> None | Some xs \<Rightarrow> Some (x # xs))"

definition move_entities_to_proper_part_ownership ::
  "(BulkData \<times> Entity list) list \<Rightarrow> (error + BulkData) list option" where
  "move_entities_to_proper_part_ownership procs =
     (case all_returned (map (\<lambda>pm. move_entities_loop (fst pm) (snd pm)) procs) of
        None \<Rightarrow> None
      | Some locals \<Rightarrow>
          (let reduced = all_reduce_max (map snd locals)
           in Some (map (\<lambda>l. throw_if_error_flag reduced (fst l)) locals)))"

section \<open>Views, invariants and stages used in the proofs\<close>

text \<open>
  What an operation leaves unchanged is stated through projections of the mesh:
  \<open>strip_state\<close> forgets the modification states, \<open>strip_counts\<close> also the closure
  counts, \<open>skeleton\<close> also the buckets, \<open>core\<close> also the connectivity.
\<close>

definition strip_state :: "BulkData \<Rightarrow> BulkData" where
  "strip_state m = m\<lparr> m_entity_state := (\<lambda>e. Unchanged) \<rparr>"

definition strip_counts :: "BulkData \<Rightarrow> BulkData" where
  "strip_counts m = m\<lparr> m_entity_state := (\<lambda>e. Unchanged), m_closure_count := (\<lambda>e. 0) \<rparr>"

definition skeleton :: "BulkData \<Rightarrow> BulkData" where
  "skeleton m = m\<lparr> m_entity_state := (\<lambda>e. Unchanged), m_closure_count := (\<lambda>e. 0),
                   m_mesh_indexes := (\<lambda>e. None) \<rparr>"

definition core :: "BulkData \<Rightarrow> BulkData" where
  "core m = (skeleton m)\<lparr> m_connectivity := (\<lambda>e. []) \<rparr>"

text \<open>
  The loop body and the loop of
  \<open>internal_propagate_induced_part_changes_to_downward_connected_entities\<close>, as they
  stand inside \<open>internal_change_entity_parts_of_rank\<close>, under names of their own.
\<close>

definition propagate_one ::
  "Entity \<Rightarrow> EntityRank \<Rightarrow> PartOrdinal list \<Rightarrow> PartOrdinal list \<Rightarrow> Relation \<Rightarrow> BulkData \<Rightarrow> error + BulkData" where
  "propagate_one entity irank addParts parts_to_remove r m3 =
     (let e_to = fst r
      in if e_to = InvalidEntity then Inr m3
         else
           then_do
             (if parallel_size m3 = 1 then Inr False
              else (case bucket_ptr m3 e_to of
                      None \<Rightarrow> Inl NullBucket
                    | Some b \<Rightarrow> Inr (shared (m_mesh_meta_data m3) b)))
             (\<lambda>remote_changes_needed.
                if remote_changes_needed
                then internal_change_entity_parts_of_rank irank e_to addParts []
                       (mark_entity_and_upward_related_entities_as_modified m3 e_to)
                else if parts_to_remove \<noteq> []
                then then_do
                       (internal_insert_all_parts_induced_from_higher_rank_entities_to_vector m3 entity e_to [])
                       (\<lambda>scratchSpace.
                          internal_change_entity_parts_of_rank irank e_to addParts
                            (internal_fill_parts_to_actually_remove parts_to_remove scratchSpace) m3)
                else internal_change_entity_parts_of_rank irank e_to addParts [] m3))"

definition propagate_all ::
  "EntityRank \<Rightarrow> Entity \<Rightarrow> PartOrdinal list \<Rightarrow> PartOrdinal list \<Rightarrow> BulkData \<Rightarrow> error + BulkData" where
  "propagate_all erank entity addParts parts_to_remove m1 =
     fold_err (\<lambda>irank m2. fold_err (propagate_one entity irank addParts parts_to_remove)
                            (connectivity m2 entity irank) m2)
       [0..<erank] m1"

definition need_to_change_parts :: "BulkData \<Rightarrow> Entity \<Rightarrow> PartOrdinal list \<Rightarrow> PartOrdinal list \<Rightarrow> bool" where
  "need_to_change_parts m entity add_parts remove_parts =
     (case bucket_ptr m entity of
        None \<Rightarrow> True
      | Some b \<Rightarrow> \<not> member_all b add_parts \<or> member_any b remove_parts)"

text \<open>
  No entity loses its bucket; the postcondition of a part change of an entity of rank
  \<open>erank\<close>; the invariant of the propagation to the lower ranks.
\<close>

definition buckets_kept :: "BulkData \<Rightarrow> BulkData \<Rightarrow> bool" where
  "buckets_kept m m' = (\<forall>x. m_mesh_indexes m x \<noteq> None \<longrightarrow> m_mesh_indexes m' x \<noteq> None)"

definition change_parts_post ::
  "EntityRank \<Rightarrow> Entity \<Rightarrow> PartOrdinal list \<Rightarrow> BulkData \<Rightarrow> BulkData \<Rightarrow> bool" where
  "change_parts_post erank e a m m' =
     (skeleton m' = skeleton m
      \<and> buckets_kept m m'
      \<and> (\<forall>x. x \<noteq> e \<and> erank \<le> entity_rank m x \<longrightarrow> m_mesh_indexes m' x = m_mesh_indexes m x)
      \<and> (erank \<le> entity_rank m e \<longrightarrow> (\<exists>b. m_mesh_indexes m' e = Some b \<and> set a \<subseteq> set (supersets b))))"

definition propagate_inv :: "EntityRank \<Rightarrow> BulkData \<Rightarrow> BulkData \<Rightarrow> bool" where
  "propagate_inv erank m1 s =
     (skeleton s = skeleton m1 \<and> buckets_kept m1 s
      \<and> (\<forall>x. erank \<le> entity_rank m1 x \<longrightarrow> m_mesh_indexes s x = m_mesh_indexes m1 x))"

text \<open>Every relation of the mesh leads to an entity that has a bucket.\<close>

definition relations_have_buckets :: "BulkData \<Rightarrow> bool" where
  "relations_have_buckets m = (\<forall>e. \<forall>r \<in> set (m_connectivity m e). m_mesh_indexes m (fst r) \<noteq> None)"

definition propagate_ok :: "BulkData \<Rightarrow> BulkData \<Rightarrow> bool" where
  "propagate_ok m1 s = (skeleton s = skeleton m1 \<and> buckets_kept m1 s)"

text \<open>
  The two halves of \<open>internal_destroy_relation\<close>: the removal of the parts that the
  relation induced, then the removal of the relation from both connectivity lists.
\<close>

definition destroy_relation_parts_stage ::
  "BulkData \<Rightarrow> Entity \<Rightarrow> Entity \<Rightarrow> ConnectivityOrdinal \<Rightarrow> error + BulkData" where
  "destroy_relation_parts_stage m e_from e_to local_id =
     (if parallel_size m < 2 \<or> internal_entity_comm_map_shared m (entity_key m e_to) = []
          then
            then_do
              (fold_err (\<lambda>irank keep.
                  fold_err (\<lambda>r keep'.
                     if \<not> (fst r = e_from \<and> fst (snd r) = local_id)
                     then (case bucket_ptr m (fst r) of
                             None \<Rightarrow> Inl NullBucket
                           | Some curBucket \<Rightarrow>
                               Inr (get_part_ordinals_to_induce_on_lower_ranks (m_mesh_meta_data m)
                                      curBucket (entity_rank m e_to) keep'))
                     else Inr keep')
                    (connectivity m e_to irank) keep)
                 [Suc (entity_rank m e_to)..<entity_rank_count (m_mesh_meta_data m)] [])
              (\<lambda>keep.
                 then_do
                   (if list_ex (\<lambda>r. fst r = e_to \<and> fst (snd r) = local_id) (connectivity m e_from (entity_rank m e_to))
                    then (case bucket_ptr m e_from of
                            None \<Rightarrow> Inl NullBucket
                          | Some b_from \<Rightarrow>
                              Inr (get_part_ordinals_to_induce_on_lower_ranks_except_for_omits
                                     (m_mesh_meta_data m) b_from keep (entity_rank m e_to) []))
                    else Inr [])
                   (\<lambda>del. if del \<noteq> [] then internal_change_entity_parts m e_to [] del else Inr m))
          else Inr m)"

definition destroy_relation_lists_stage ::
  "BulkData \<Rightarrow> Entity \<Rightarrow> Entity \<Rightarrow> ConnectivityOrdinal \<Rightarrow> error + (BulkData \<times> bool)" where
  "destroy_relation_lists_stage m1 e_from e_to local_id =
     (case bucket_ptr m1 e_from of
              None \<Rightarrow> Inl NullBucket
            | Some b_from \<Rightarrow>
               (let meta = m_mesh_meta_data m1;
                    (m2, caused_change_fwd) = bucket_destroy_relation m1 e_from e_to local_id;
                    m3 = (if caused_change_fwd \<and> owned meta b_from \<and> entity_rank m2 e_to < entity_rank m2 e_from
                          then adjust_closure_count m2 e_to (- 1) else m2)
                in if caused_change_fwd
                   then (case bucket_ptr m3 e_to of
                           None \<Rightarrow> Inl NullBucket
                         | Some b_to \<Rightarrow>
                            (let (m4, caused_change) = bucket_destroy_relation m3 e_to e_from local_id;
                                 m5 = (if caused_change \<and> owned meta b_to \<and> entity_rank m4 e_from < entity_rank m4 e_to
                                       then adjust_closure_count m4 e_from (- 1) else m4)
                             in Inr (mark_entity_and_upward_related_entities_as_modified
                                       (mark_entity_and_upward_related_entities_as_modified m5 e_to) e_from,
                                     caused_change_fwd)))
                   else Inr (m3, caused_change_fwd)))"

definition without_relation :: "Entity \<Rightarrow> ConnectivityOrdinal \<Rightarrow> Relation list \<Rightarrow> Relation list" where
  "without_relation b k rs = filter (\<lambda>r. \<not> (fst r = b \<and> fst (snd r) = k)) rs"

text \<open>
  The invariant of the connectivity: every relation leads to a valid entity of another
  rank, among the ranks of the mesh, which holds the relation back with the same
  ordinal. \<open>internal_declare_relation\<close> and \<open>internal_destroy_relation\<close> keep the two
  directions together.
\<close>

definition well_connected :: "BulkData \<Rightarrow> bool" where
  "well_connected m =
     (\<forall>e. \<forall>r \<in> set (m_connectivity m e).
        is_valid m (fst r)
        \<and> entity_rank m (fst r) \<noteq> entity_rank m e
        \<and> entity_rank m (fst r) < entity_rank_count (m_mesh_meta_data m)
        \<and> has_relation m (fst r) e (fst (snd r)))"

text \<open>
  The loops of \<open>internal_destroy_entity\<close> under names of their own: one relation, the
  relations of one rank, and the removal of the entity once its relations are gone.
  \<open>severed m n P s\<close> is the invariant of the loops: \<open>s\<close> is \<open>m\<close> without the relations
  \<open>P\<close> of \<open>n\<close>, in both directions.
\<close>

definition severed ::
  "BulkData \<Rightarrow> Entity \<Rightarrow> (Entity \<times> ConnectivityOrdinal) set \<Rightarrow> BulkData \<Rightarrow> bool" where
  "severed m n P s =
     (core s = core m \<and> buckets_kept m s
      \<and> m_connectivity s n = filter (\<lambda>r. (fst r, fst (snd r)) \<notin> P) (m_connectivity m n)
      \<and> (\<forall>x. x \<noteq> n \<longrightarrow>
            m_connectivity s x = filter (\<lambda>r. \<not> (fst r = n \<and> (x, fst (snd r)) \<in> P)) (m_connectivity m x)))"

definition destroy_one :: "Entity \<Rightarrow> Relation \<Rightarrow> BulkData \<Rightarrow> error + BulkData" where
  "destroy_one entity r m2 =
     (if is_valid m2 (fst r)
      then then_do (internal_destroy_relation m2 entity (fst r) (fst (snd r))) (\<lambda>(m3, _). Inr m3)
      else Inr m2)"

definition destroy_rank :: "Entity \<Rightarrow> EntityRank \<Rightarrow> BulkData \<Rightarrow> error + BulkData" where
  "destroy_rank entity irank m1 = fold_err (destroy_one entity) (rev (connectivity m1 entity irank)) m1"

definition detach :: "BulkData \<Rightarrow> Entity \<Rightarrow> bool \<Rightarrow> BulkData" where
  "detach m4 entity ghost =
     (let key = entity_key m4 entity;
          m5 = (if ghost then m4\<lparr> m_ghost_reuse_map := (m_ghost_reuse_map m4)(key \<mapsto> entity) \<rparr> else m4);
          m6 = m5\<lparr> m_entity_comm_list := invalidate_comm_list_entry (m_entity_comm_list m5) key \<rparr>;
          m7 = m6\<lparr> m_connectivity := (m_connectivity m6)(entity := []) \<rparr>;
          m8 = record_entity_deletion m7 entity;
          m9 = (if \<not> ghost
                then m8\<lparr> m_deleted_entities_current_modification_cycle :=
                           entity # m_deleted_entities_current_modification_cycle m8 \<rparr>
                else m8)
      in m9)"

section \<open>An example mesh\<close>

text \<open>
  A mesh of one process inside a modification cycle: a node (offset 1), a face (offset
  2) and an element (offset 3), all created and owned locally; the face is side 0 of
  the element and has the node as its node 0. Part 5 is a part of rank 2 that is
  induced on the lower ranks. This is the state that \<open>declare_entity\<close> and
  \<open>declare_relation\<close> build from the empty mesh (\<open>example_mesh_is_constructed\<close>).
\<close>

definition example_meta :: MetaData where
  "example_meta =
     \<lparr> entity_rank_count = 4, spatial_dimension = 3, side_rank = FACE_RANK, MAX_ID = 1000,
       universal_part = 0, locally_owned_part = 1, globally_shared_part = 2, aura_part = 3,
       part_supersets = (\<lambda>p. if p = 0 then [] else [0]), part_subsets = (\<lambda>p. []),
       part_is_ranked = (\<lambda>p. p = 5), part_should_induce = (\<lambda>p r. p = 5 \<and> r = 2),
       part_is_internal = (\<lambda>p. p < 4) \<rparr>"

definition example_mesh :: BulkData where
  "example_mesh =
     \<lparr> m_mesh_meta_data = example_meta, m_parallel_rank = 0, m_parallel_size = 1,
       m_in_synchronized_state = False, m_mesh_indexes_size = 4,
       m_mesh_indexes = (\<lambda>e. if e = 1 then Some \<lparr> bucket_entity_rank = 0, supersets = [0, 1] \<rparr>
                              else if e = 2 then Some \<lparr> bucket_entity_rank = 2, supersets = [0, 1] \<rparr>
                              else if e = 3 then Some \<lparr> bucket_entity_rank = 3, supersets = [0, 1] \<rparr>
                              else None),
       m_entity_keys = (\<lambda>e. if e = 1 then (0, 1) else if e = 2 then (2, 1) else if e = 3 then (3, 1)
                             else invalid_key),
       m_owner = (\<lambda>e. 0),
       m_closure_count = (\<lambda>e. if e = 1 then 2 else if e = 2 then 2 else if e = 3 then 1 else 0),
       m_entity_state = (\<lambda>e. if e = 1 \<or> e = 2 \<or> e = 3 then Created else Unchanged),
       m_connectivity = (\<lambda>e. if e = 1 then [(2, 0, 0)] else if e = 2 then [(1, 0, 0), (3, 0, 0)]
                              else if e = 3 then [(2, 0, 0)] else []),
       m_entity_repo = (\<lambda>k. if k = (0, 1) then Some 1 else if k = (2, 1) then Some 2
                              else if k = (3, 1) then Some 3 else None),
       m_entity_comm_map = (\<lambda>k. []), m_entity_comm_list = [],
       m_deleted_entities = [], m_deleted_entities_current_modification_cycle = [],
       m_ghost_reuse_map = (\<lambda>k. None), unprotect_count = (\<lambda>r s c. c),
       sierra_migration = False, m_add_fmwk_data = False \<rparr>"

text \<open>
  The empty mesh of the same process inside a modification cycle, the calls that build
  the example mesh from it, and what is compared of an entity: its bucket, key, owner,
  closure count, state, relations and entry in the repository.
\<close>

definition example_empty_mesh :: BulkData where
  "example_empty_mesh =
     \<lparr> m_mesh_meta_data = example_meta, m_parallel_rank = 0, m_parallel_size = 1,
       m_in_synchronized_state = False, m_mesh_indexes_size = 1,
       m_mesh_indexes = (\<lambda>e. None), m_entity_keys = (\<lambda>e. invalid_key), m_owner = (\<lambda>e. 0),
       m_closure_count = (\<lambda>e. 0), m_entity_state = (\<lambda>e. Unchanged), m_connectivity = (\<lambda>e. []),
       m_entity_repo = (\<lambda>k. None), m_entity_comm_map = (\<lambda>k. []), m_entity_comm_list = [],
       m_deleted_entities = [], m_deleted_entities_current_modification_cycle = [],
       m_ghost_reuse_map = (\<lambda>k. None), unprotect_count = (\<lambda>r s c. c),
       sierra_migration = False, m_add_fmwk_data = False \<rparr>"

definition example_construction :: "error + BulkData" where
  "example_construction =
     then_do (declare_entity example_empty_mesh NODE_RANK 1 []) (\<lambda>(m, n).
     then_do (declare_entity m FACE_RANK 1 []) (\<lambda>(m, f).
     then_do (declare_entity m ELEM_RANK 1 []) (\<lambda>(m, e).
     then_do (declare_relation m f n 0 0) (\<lambda>m.
     declare_relation m e f 0 0))))"

definition entity_view ::
  "BulkData \<Rightarrow> Entity \<Rightarrow> Bucket option \<times> EntityKey \<times> int \<times> 16 word \<times> EntityState \<times> Relation list \<times> Entity option" where
  "entity_view m e =
     (m_mesh_indexes m e, m_entity_keys m e, m_owner m e, m_closure_count m e, m_entity_state m e,
      m_connectivity m e, m_entity_repo m (m_entity_keys m e))"


text \<open>The same mesh when no entity is in the owned closure.\<close>

definition example_mesh_with_ghost :: BulkData where
  "example_mesh_with_ghost = example_mesh\<lparr> m_closure_count := (\<lambda>e. 0) \<rparr>"



section \<open>Properties of the resolution of shared keys\<close>











lemma last_lower_ranked_key_alt:
  "last_lower_ranked_key r own ps =
     (if filter (\<lambda>pk. fst pk < r) ps = [] then own else snd (last (filter (\<lambda>pk. fst pk < r) ps)))"
  by (cases "filter (\<lambda>pk. fst pk < r) ps") (simp_all add: last_lower_ranked_key_def)





lemma lowest_rank_wins_when_received_in_descending_order:
  assumes "ps \<noteq> []" "sorted (rev (map fst ps))" "fst (last ps) < this_rank"
  shows "last_lower_ranked_key this_rank own ps = snd (last ps) \<and> fst (last ps) = Min (fst ` set ps)"
proof -
  obtain qs q where ps: "ps = qs @ [q]" using assms(1) by (cases ps rule: rev_exhaust) auto
  have a: "last_lower_ranked_key this_rank own ps = snd (last ps)"
    using assms(3) unfolding ps by (simp add: last_lower_ranked_key_alt)
  have "\<forall>x \<in> set (map fst qs). fst q \<le> x"
    using assms(2) unfolding ps by simp
  then have "Min (fst ` set ps) = fst q"
    unfolding ps by (intro Min_eqI) auto
  with a show ?thesis unfolding ps by simp
qed




section \<open>Properties of the child node requests\<close>

lemma sort_Cons_Min:
  fixes xs :: "('a::linorder) list"
  assumes "sort xs = y # ys"
  shows "y = Min (set xs)"
proof -
  have s: "sorted (y # ys)" using assms sorted_sort[of xs] by simp
  have e: "set xs = set (y # ys)" using assms set_sort[of "\<lambda>x. x" xs] by simp
  have "Min (set (y # ys)) = y"
    by (rule Min_eqI) (use s in auto)
  with e show ?thesis by simp
qed

lemma get_id_for_child_sorted:
  assumes "m_id_proc_pairs_from_all_procs r \<noteq> []"
  shows "get_id_for_child (sort_id_proc_pairs r) = Inr (snd (Min (set (m_id_proc_pairs_from_all_procs r))))"
proof -
  let ?ps = "m_id_proc_pairs_from_all_procs r"
  obtain y ys where s: "sort ?ps = y # ys"
    using assms by (cases "sort ?ps") (auto dest: arg_cong[where f=length])
  from sort_Cons_Min[OF s] s show ?thesis
    by (simp add: get_id_for_child_def sort_id_proc_pairs_def)
qed

lemma Min_pair_lex:
  fixes S :: "(int \<times> nat) set"
  assumes "finite S" "S \<noteq> {}"
  shows "Min S \<in> S \<and> (\<forall>(q, j) \<in> S. fst (Min S) < q \<or> (fst (Min S) = q \<and> snd (Min S) \<le> j))"
proof -
  have m: "Min S \<in> S" using assms by (rule Min_in)
  have "\<And>q j. (q, j) \<in> S \<Longrightarrow> fst (Min S) < q \<or> (fst (Min S) = q \<and> snd (Min S) \<le> j)"
  proof -
    fix q j assume "(q, j) \<in> S"
    then have "Min S \<le> (q, j)" using assms by simp
    then show "fst (Min S) < q \<or> (fst (Min S) = q \<and> snd (Min S) \<le> j)"
      by (cases "Min S") (auto simp: less_eq_prod_def)
  qed
  with m show ?thesis by auto
qed

lemma lower_bound_request_le: "lower_bound_request reqs v \<le> length reqs"
  by (induction reqs) auto

lemma add_proc_id_pair_parents [simp]: "m_parents (add_proc_id_pair i s r) = m_parents r"
  by (simp add: add_proc_id_pair_def)

lemma receive_one_parents:
  "map m_parents (receive_child_node_message reqs msg) = map m_parents reqs"
proof -
  obtain i ps s where msg: "msg = (i, ps, s)" by (cases msg) auto
  have "\<And>k r. k < length reqs \<Longrightarrow> m_parents r = m_parents (reqs ! k) \<Longrightarrow> map m_parents (reqs[k := r]) = map m_parents reqs"
    by (simp add: map_update list_update_same_conv)
  then show ?thesis unfolding msg receive_child_node_message_def Let_def by simp
qed

lemma receive_all_parents:
  "map m_parents (receive_child_node_messages reqs msgs) = map m_parents reqs"
  unfolding receive_child_node_messages_def
  by (induction msgs arbitrary: reqs) (simp_all add: receive_one_parents)

lemma lower_bound_request_first:
  "sorted (map m_parents reqs) \<Longrightarrow> k < length reqs \<Longrightarrow>
   m_parents (reqs ! k) \<notin> set (map m_parents (take k reqs)) \<Longrightarrow>
   lower_bound_request reqs (m_parents (reqs ! k)) = k"
proof (induction reqs arbitrary: k)
  case Nil
  then show ?case by simp
next
  case (Cons r rs)
  show ?case
  proof (cases k)
    case 0
    then show ?thesis by simp
  next
    case (Suc n)
    with Cons.prems have n: "n < length rs" and s: "sorted (map m_parents rs)"
      and le: "m_parents r \<le> m_parents (rs ! n)"
      and ne: "m_parents r \<noteq> m_parents (rs ! n)"
      and fi: "m_parents (rs ! n) \<notin> set (map m_parents (take n rs))"
      by auto
    from le ne have "m_parents r < m_parents (rs ! n)" by simp
    with Cons.IH[OF s n fi] Suc show ?thesis by simp
  qed
qed

lemma lower_bound_request_is_first:
  "k < length reqs \<Longrightarrow> lower_bound_request reqs v = k \<Longrightarrow> v \<notin> set (map m_parents (take k reqs))"
proof (induction reqs arbitrary: k)
  case Nil
  then show ?case by simp
next
  case (Cons r rs)
  show ?case
  proof (cases k)
    case 0
    then show ?thesis by simp
  next
    case (Suc n)
    with Cons.prems have lt: "m_parents r < v" and lb: "lower_bound_request rs v = n" and n: "n < length rs"
      by (auto split: if_splits)
    from Cons.IH[OF n lb] lt Suc show ?thesis by auto
  qed
qed

lemma receive_one_pairs_sorted:
  assumes "sorted (map m_parents reqs)" "k < length reqs"
  shows "m_id_proc_pairs_from_all_procs (receive_child_node_message reqs (i, ps, s) ! k) =
         m_id_proc_pairs_from_all_procs (reqs ! k)
         @ (if sort ps = m_parents (reqs ! k) \<and> m_parents (reqs ! k) \<notin> set (map m_parents (take k reqs))
            then [(i, s)] else [])"
proof -
  let ?v = "sort ps"
  let ?kk = "lower_bound_request reqs ?v"
  let ?first = "m_parents (reqs ! k) \<notin> set (map m_parents (take k reqs))"
  have hit: "?kk = k" if "?v = m_parents (reqs ! k)" "?first"
    using lower_bound_request_first[OF assms that(2)] that(1) by simp
  have r: "receive_child_node_message reqs (i, ps, s) =
           (if ?kk < length reqs \<and> m_parents (reqs ! ?kk) = ?v
            then reqs[?kk := add_proc_id_pair i s (reqs ! ?kk)] else reqs)"
    by (simp add: receive_child_node_message_def Let_def new_ActiveChildNodeRequest_def)
  show ?thesis
  proof (cases "?kk < length reqs \<and> m_parents (reqs ! ?kk) = ?v")
    case found: True
    show ?thesis
    proof (cases "?kk = k")
      case True
      with found have v: "?v = m_parents (reqs ! k)" by simp
      from lower_bound_request_is_first[OF assms(2) True] v have f: ?first by simp
      have c: "?v = m_parents (reqs ! k) \<and> ?first" using v f by simp
      have r': "receive_child_node_message reqs (i, ps, s) = reqs[k := add_proc_id_pair i s (reqs ! k)]"
        using r found True by simp
      show ?thesis
        unfolding r' if_P[OF c] using assms(2) by (simp add: add_proc_id_pair_def)
    next
      case False
      with hit have nc: "\<not> (?v = m_parents (reqs ! k) \<and> ?first)" by blast
      have "reqs[?kk := add_proc_id_pair i s (reqs ! ?kk)] ! k = reqs ! k"
        using False by simp
      then show ?thesis
        unfolding r if_P[OF found] if_not_P[OF nc] by simp
    qed
  next
    case False
    have nc: "\<not> (?v = m_parents (reqs ! k) \<and> ?first)"
    proof
      assume a: "?v = m_parents (reqs ! k) \<and> ?first"
      with hit have "?kk = k" by blast
      with False a assms(2) show False by simp
    qed
    show ?thesis
      unfolding r if_not_P[OF False] if_not_P[OF nc] by simp
  qed
qed

lemma receive_all_pairs_sorted:
  assumes "sorted (map m_parents reqs)" "k < length reqs"
  shows "m_id_proc_pairs_from_all_procs (receive_child_node_messages reqs msgs ! k) = proposals_held reqs k msgs"
  using assms
proof (induction msgs arbitrary: reqs)
  case Nil
  then show ?case by (simp add: receive_child_node_messages_def matching_proposals_def proposals_held_def)
next
  case (Cons msg msgs)
  obtain i ps s where msg: "msg = (i, ps, s)" by (cases msg) auto
  let ?reqs' = "receive_child_node_message reqs msg"
  have p: "map m_parents ?reqs' = map m_parents reqs" by (rule receive_one_parents)
  then have l: "length ?reqs' = length reqs" using map_eq_imp_length_eq by blast
  have pk: "m_parents (?reqs' ! k) = m_parents (reqs ! k)"
  proof -
    have "map m_parents ?reqs' ! k = map m_parents reqs ! k" using p by simp
    with Cons.prems(2) l show ?thesis by simp
  qed
  have tk: "map m_parents (take k ?reqs') = map m_parents (take k reqs)"
    using p by (simp add: take_map[symmetric])
  have s': "sorted (map m_parents ?reqs')" using p Cons.prems(1) by simp
  have k': "k < length ?reqs'" using l Cons.prems(2) by simp
  have "m_id_proc_pairs_from_all_procs (receive_child_node_messages ?reqs' msgs ! k) = proposals_held ?reqs' k msgs"
    using Cons.IH[OF s' k'] .
  then have "m_id_proc_pairs_from_all_procs (receive_child_node_messages reqs (msg # msgs) ! k)
      = m_id_proc_pairs_from_all_procs (?reqs' ! k)
        @ (if m_parents (reqs ! k) \<in> set (map m_parents (take k reqs)) then []
           else matching_proposals (m_parents (reqs ! k)) msgs)"
    using pk tk by (simp add: receive_child_node_messages_def proposals_held_def)
  also have "m_id_proc_pairs_from_all_procs (?reqs' ! k) =
         m_id_proc_pairs_from_all_procs (reqs ! k)
         @ (if sort ps = m_parents (reqs ! k) \<and> m_parents (reqs ! k) \<notin> set (map m_parents (take k reqs))
            then [(i, s)] else [])"
    unfolding msg by (rule receive_one_pairs_sorted[OF Cons.prems])
  finally show ?case
    unfolding msg by (simp add: proposals_held_def matching_proposals_def)
qed

lemma proposals_held_distinct:
  assumes "distinct (map m_parents reqs)" "k < length reqs"
  shows "proposals_held reqs k msgs =
         m_id_proc_pairs_from_all_procs (reqs ! k) @ matching_proposals (m_parents (reqs ! k)) msgs"
proof -
  have "map m_parents reqs ! k \<notin> set (take k (map m_parents reqs))"
  proof
    assume "map m_parents reqs ! k \<in> set (take k (map m_parents reqs))"
    then obtain j where j: "j < k" "take k (map m_parents reqs) ! j = map m_parents reqs ! k"
      using assms(2) by (auto simp: in_set_conv_nth)
    then have e: "map m_parents reqs ! j = map m_parents reqs ! k" by simp
    have "j < length (map m_parents reqs)" "k < length (map m_parents reqs)"
      using j(1) assms(2) by simp_all
    from nth_eq_iff_index_eq[OF assms(1) this] e j(1) show False by simp
  qed
  then show ?thesis using assms(2) by (simp add: proposals_held_def take_map)
qed

text \<open>
  Claim C2, as stated: the id chosen for a child node is the lowest id among all
  proposals. It fails: process 1 proposes id 5 for the child of parents 3 and 7 and
  receives the proposal 9 of process 0; the sorted pairs start with (0, 9), so the child
  gets id 9 although 5 is the lowest id proposed.
\<close>

theorem lowest_id_counterexample:
  "get_id_for_child (sort_id_proc_pairs
      (receive_child_node_messages [add_proc_id_pair 1 5 (new_ActiveChildNodeRequest [7, 3])] [(0, [3, 7], 9)] ! 0)) = Inr 9
   \<and> Min (snd ` set (m_id_proc_pairs_from_all_procs
      (receive_child_node_messages [add_proc_id_pair 1 5 (new_ActiveChildNodeRequest [7, 3])] [(0, [3, 7], 9)] ! 0))) = 5"
  by (simp add: receive_child_node_messages_def receive_child_node_message_def add_proc_id_pair_def
       new_ActiveChildNodeRequest_def get_id_for_child_def sort_id_proc_pairs_def less_eq_prod_def)

text \<open>
  Claim C2, amended: for every request of the request vector, sorted by parents as
  \<open>std::sort\<close> leaves it, the id handed to \<open>declare_node\<close> is the id proposed by the
  lowest-ranked process among the proposals the request holds; the id is only the
  secondary key, deciding among proposals of that same process, and the result depends
  on the proposals as a set, not on their order of arrival. The request holds its own
  proposal and the proposals received for the same sorted parents when it is the first
  request with these parents, which is every request when the local requests have
  pairwise different parents; a later local request with the same parents holds its
  own proposal only.
\<close>

theorem child_id_is_proposal_of_lowest_rank:
  assumes "sorted (map m_parents reqs)" and "k < length reqs"
    and "proposals_held reqs k msgs \<noteq> []"
  shows "\<exists>r' p idc procs.
           set_node_entity_for_request this_rank (receive_child_node_messages reqs msgs ! k) = Inr (r', idc, procs)
         \<and> (p, idc) \<in> set (proposals_held reqs k msgs)
         \<and> (\<forall>(q, j) \<in> set (proposals_held reqs k msgs). p < q \<or> (p = q \<and> idc \<le> j))
         \<and> (distinct (map m_parents reqs) \<longrightarrow>
              proposals_held reqs k msgs =
                m_id_proc_pairs_from_all_procs (reqs ! k) @ matching_proposals (m_parents (reqs ! k)) msgs)"
proof -
  let ?r = "receive_child_node_messages reqs msgs ! k"
  let ?P = "proposals_held reqs k msgs"
  have ps: "m_id_proc_pairs_from_all_procs ?r = ?P"
    using receive_all_pairs_sorted[OF assms(1,2)] .
  with assms(3) have g: "get_id_for_child (sort_id_proc_pairs ?r) = Inr (snd (Min (set ?P)))"
    using get_id_for_child_sorted[of ?r] by simp
  have m: "Min (set ?P) \<in> set ?P \<and>
        (\<forall>(q, j) \<in> set ?P. fst (Min (set ?P)) < q \<or> (fst (Min (set ?P)) = q \<and> snd (Min (set ?P)) \<le> j))"
    using Min_pair_lex[of "set ?P"] assms(3) by simp
  then have i: "(fst (Min (set ?P)), snd (Min (set ?P))) \<in> set ?P" by simp
  have s: "set_node_entity_for_request this_rank ?r =
      Inr (sort_id_proc_pairs ?r, snd (Min (set ?P)),
           filter (\<lambda>p. p \<noteq> this_rank) (map fst (m_id_proc_pairs_from_all_procs (sort_id_proc_pairs ?r))))"
    using g unfolding set_node_entity_for_request_def Let_def by simp
  from s i m proposals_held_distinct[OF _ assms(2), of msgs] show ?thesis by blast
qed

text \<open>
  Process 1 has two requests for the child of the parents 3 and 7, with the ids 5 and
  6, and receives the proposal 9 of process 0: the first request declares the node 9,
  the second its own id 6.
\<close>

theorem child_id_is_proposal_of_lowest_rank_witness:
  "sorted (map m_parents [add_proc_id_pair 1 5 (new_ActiveChildNodeRequest [7, 3]),
                          add_proc_id_pair 1 6 (new_ActiveChildNodeRequest [3, 7])])
   \<and> proposals_held [add_proc_id_pair 1 5 (new_ActiveChildNodeRequest [7, 3]),
                      add_proc_id_pair 1 6 (new_ActiveChildNodeRequest [3, 7])] 0 [(0, [3, 7], 9)]
        = [(1, 5), (0, 9)]
   \<and> proposals_held [add_proc_id_pair 1 5 (new_ActiveChildNodeRequest [7, 3]),
                      add_proc_id_pair 1 6 (new_ActiveChildNodeRequest [3, 7])] 1 [(0, [3, 7], 9)]
        = [(1, 6)]
   \<and> (\<exists>r' procs.
         set_node_entity_for_request 1
           (receive_child_node_messages [add_proc_id_pair 1 5 (new_ActiveChildNodeRequest [7, 3]),
                                         add_proc_id_pair 1 6 (new_ActiveChildNodeRequest [3, 7])]
              [(0, [3, 7], 9)] ! 0) = Inr (r', 9, procs))
   \<and> (\<exists>r' procs.
         set_node_entity_for_request 1
           (receive_child_node_messages [add_proc_id_pair 1 5 (new_ActiveChildNodeRequest [7, 3]),
                                         add_proc_id_pair 1 6 (new_ActiveChildNodeRequest [3, 7])]
              [(0, [3, 7], 9)] ! 1) = Inr (r', 6, procs))"
proof -
  let ?reqs = "[add_proc_id_pair 1 5 (new_ActiveChildNodeRequest [7, 3]),
                add_proc_id_pair 1 6 (new_ActiveChildNodeRequest [3, 7])]"
  let ?msgs = "[(0::int, [3::nat, 7], 9::nat)]"
  have a: "sorted (map m_parents ?reqs)"
    by (simp add: add_proc_id_pair_def new_ActiveChildNodeRequest_def)
  have h0: "proposals_held ?reqs 0 ?msgs = [(1, 5), (0, 9)]"
    by (simp add: proposals_held_def add_proc_id_pair_def new_ActiveChildNodeRequest_def matching_proposals_def)
  have h1: "proposals_held ?reqs 1 ?msgs = [(1, 6)]"
    by (simp add: proposals_held_def add_proc_id_pair_def new_ActiveChildNodeRequest_def matching_proposals_def)
  from child_id_is_proposal_of_lowest_rank[OF a, of 0 ?msgs 1] h0
  obtain r0 p0 i0 procs0 where
    s0: "set_node_entity_for_request 1 (receive_child_node_messages ?reqs ?msgs ! 0) = Inr (r0, i0, procs0)"
    and in0: "(p0, i0) \<in> set [(1::int, 5::nat), (0, 9)]"
    and mn0: "\<forall>(q, j) \<in> set [(1::int, 5::nat), (0, 9)]. p0 < q \<or> (p0 = q \<and> i0 \<le> j)"
    by auto
  from in0 mn0 have "i0 = 9" by auto
  with s0 have c0: "\<exists>r' procs. set_node_entity_for_request 1 (receive_child_node_messages ?reqs ?msgs ! 0) = Inr (r', 9, procs)"
    by blast
  from child_id_is_proposal_of_lowest_rank[OF a, of 1 ?msgs 1] h1
  obtain r1 p1 i1 procs1 where
    s1: "set_node_entity_for_request 1 (receive_child_node_messages ?reqs ?msgs ! 1) = Inr (r1, i1, procs1)"
    and in1: "(p1, i1) \<in> set [(1::int, 6::nat)]"
    by auto
  from in1 have "i1 = 6" by simp
  with s1 have c1: "\<exists>r' procs. set_node_entity_for_request 1 (receive_child_node_messages ?reqs ?msgs ! 1) = Inr (r', 6, procs)"
    by blast
  from a h0 h1 c0 c1 show ?thesis by blast
qed

section \<open>Properties of the choice of a new owner\<close>

lemma sentinel: "invalid_owner_sentinel = -1"
  by (simp add: invalid_owner_sentinel_def)

lemma loop_stuck_below:
  "new_owner < 0 \<Longrightarrow> \<forall>s \<in> set shares. 0 \<le> proc s \<Longrightarrow> 0 \<le> nprocs \<Longrightarrow>
   determine_new_owner_loop nprocs new_owner shares = new_owner"
  by (induction shares arbitrary: new_owner) auto

lemma determine_new_owner_destroyed:
  "\<forall>s \<in> set shares. 0 \<le> proc s \<Longrightarrow> 0 \<le> nprocs \<Longrightarrow>
   determine_new_owner_of False this_rank nprocs shares = -1"
  unfolding determine_new_owner_of_def using loop_stuck_below[of "-1" shares nprocs]
  by (simp add: sentinel)

lemma Min_insert_above:
  fixes a x :: int
  assumes "finite A" "Min (insert a A) \<le> x"
  shows "Min (insert a (insert x A)) = Min (insert a A)"
proof -
  have "Min (insert x (insert a A)) = min x (Min (insert a A))"
    using assms(1) by (intro Min_insert) auto
  with assms(2) show ?thesis by (simp only: insert_commute min_def split: if_splits) auto
qed

lemma Min_insert_below:
  fixes a x :: int
  assumes "finite A" "x < a"
  shows "Min (insert a (insert x A)) = Min (insert x A)"
proof -
  have "Min (insert a (insert x A)) = min a (Min (insert x A))"
    using assms(1) by (intro Min_insert) auto
  moreover have "Min (insert x A) \<le> x" using assms(1) by (intro Min_le) auto
  ultimately show ?thesis using assms(2) by (simp only: min_def split: if_splits) auto
qed

lemma loop_min:
  "new_owner < nprocs \<Longrightarrow>
   determine_new_owner_loop nprocs new_owner shares =
     Min (insert new_owner {p \<in> proc ` set shares. p < nprocs})"
proof (induction shares arbitrary: new_owner)
  case Nil
  then show ?case by simp
next
  case (Cons s shares)
  let ?S = "{p \<in> proc ` set shares. p < nprocs}"
  have fin: "finite ?S" by simp
  show ?case
  proof (cases "proc s < nprocs")
    case True
    then have e: "{p \<in> proc ` set (s # shares). p < nprocs} = insert (proc s) ?S" by auto
    show ?thesis
    proof (cases "proc s < new_owner")
      case True
      with \<open>proc s < nprocs\<close> Cons.prems
      have "determine_new_owner_loop nprocs new_owner (s # shares) = Min (insert (proc s) ?S)"
        using Cons.IH[of "proc s"] by simp
      also have "\<dots> = Min (insert new_owner (insert (proc s) ?S))"
        using Min_insert_below[OF fin True] by simp
      finally show ?thesis unfolding e .
    next
      case False
      with Cons.prems
      have "determine_new_owner_loop nprocs new_owner (s # shares) = Min (insert new_owner ?S)"
        using Cons.IH[of new_owner] by simp
      also have "\<dots> = Min (insert new_owner (insert (proc s) ?S))"
      proof -
        have "Min (insert new_owner ?S) \<le> new_owner" using fin by (intro Min_le) auto
        with False have "Min (insert new_owner ?S) \<le> proc s" by linarith
        from Min_insert_above[OF fin this] show ?thesis by simp
      qed
      finally show ?thesis unfolding e .
    qed
  next
    case False
    then have e: "{p \<in> proc ` set (s # shares). p < nprocs} = ?S" by auto
    from False Cons show ?thesis unfolding e by simp
  qed
qed

lemma determine_new_owner_valid:
  "this_rank < nprocs \<Longrightarrow>
   determine_new_owner_of True this_rank nprocs shares =
     Min (insert this_rank {p \<in> proc ` set shares. p < nprocs})"
  unfolding determine_new_owner_of_def using loop_min by simp

text \<open>
  Claim C6: \<open>determine_new_owner\<close> returns the lowest-ranked process of the shared set,
  the local process being a candidate only for a valid entity. For a valid entity the
  code does so (\<open>determine_new_owner_valid\<close>). For a destroyed entity it does not: the
  accumulator starts at \<open>~0u\<close> converted to \<open>int\<close>, which is \<open>-1\<close>, so neither
  \<open>share->proc < new_owner\<close> nor \<open>parallel_size() <= new_owner\<close> ever holds and \<open>-1\<close>
  is returned whatever the shared set is (\<open>determine_new_owner_destroyed\<close>). Here the
  local process 0 of 2 has destroyed an entity that process 1 shares: the claim gives
  owner 1, the code returns \<open>-1\<close>.
\<close>

theorem determine_new_owner_destroyed_entity:
  "determine_new_owner_of False 0 2 [\<lparr>ghost_id = 0, proc = 1\<rparr>] = - 1"
  by (simp add: determine_new_owner_of_def invalid_owner_sentinel_def)

section \<open>Properties of the rank and id validation\<close>

text \<open>
  Claim C10, as stated: on a mesh of spatial dimension 2 a pair with \<open>FACE_RANK\<close> raises
  "Bad key rank" and the same id with any other valid rank is accepted. The second half
  fails for an id that is not valid: with id 0 the face rank is refused for its rank,
  and the node rank, which is valid, is refused too, for the id.
\<close>

theorem same_id_other_rank_counterexample:
  "require_good_rank_and_id
     \<lparr> entity_rank_count = 4, spatial_dimension = 2, side_rank = EDGE_RANK, MAX_ID = 1000,
       universal_part = 0, locally_owned_part = 1, globally_shared_part = 2, aura_part = 3,
       part_supersets = (\<lambda>p. []), part_subsets = (\<lambda>p. []),
       part_is_ranked = (\<lambda>p. False), part_should_induce = (\<lambda>p r. False),
       part_is_internal = (\<lambda>p. p < 4) \<rparr>
     FACE_RANK 0 = Inl (BadKeyRank FACE_RANK 0)
   \<and> require_good_rank_and_id
     \<lparr> entity_rank_count = 4, spatial_dimension = 2, side_rank = EDGE_RANK, MAX_ID = 1000,
       universal_part = 0, locally_owned_part = 1, globally_shared_part = 2, aura_part = 3,
       part_supersets = (\<lambda>p. []), part_subsets = (\<lambda>p. []),
       part_is_ranked = (\<lambda>p. False), part_should_induce = (\<lambda>p r. False),
       part_is_internal = (\<lambda>p. p < 4) \<rparr>
     NODE_RANK 0 = Inl (BadId 0)"
  by (simp add: require_good_rank_and_id_def is_valid_id_def FACE_RANK_def NODE_RANK_def)

text \<open>
  Claim C10, amended: on a mesh of spatial dimension 2 every validation of a pair with
  \<open>FACE_RANK\<close> raises "Bad key rank", whatever the id and although the rank may be below
  the rank count; with any other rank below the rank count the same id is accepted if
  it is a valid id, and refused with "Bad id" otherwise.
\<close>

theorem face_rank_refused_in_2d:
  assumes "spatial_dimension meta = 2"
  shows "require_good_rank_and_id meta FACE_RANK ent_id = Inl (BadKeyRank FACE_RANK ent_id)
       \<and> (\<forall>ent_rank. ent_rank < entity_rank_count meta \<and> ent_rank \<noteq> FACE_RANK \<longrightarrow>
            require_good_rank_and_id meta ent_rank ent_id =
              (if is_valid_id meta ent_id then Inr () else Inl (BadId ent_id)))"
  using assms by (simp add: require_good_rank_and_id_def)

theorem face_rank_refused_in_2d_witness:
  "require_good_rank_and_id
     \<lparr> entity_rank_count = 4, spatial_dimension = 2, side_rank = EDGE_RANK, MAX_ID = 1000,
       universal_part = 0, locally_owned_part = 1, globally_shared_part = 2, aura_part = 3,
       part_supersets = (\<lambda>p. []), part_subsets = (\<lambda>p. []),
       part_is_ranked = (\<lambda>p. False), part_should_induce = (\<lambda>p r. False),
       part_is_internal = (\<lambda>p. p < 4) \<rparr>
     FACE_RANK 7 = Inl (BadKeyRank FACE_RANK 7)
   \<and> require_good_rank_and_id
     \<lparr> entity_rank_count = 4, spatial_dimension = 2, side_rank = EDGE_RANK, MAX_ID = 1000,
       universal_part = 0, locally_owned_part = 1, globally_shared_part = 2, aura_part = 3,
       part_supersets = (\<lambda>p. []), part_subsets = (\<lambda>p. []),
       part_is_ranked = (\<lambda>p. False), part_should_induce = (\<lambda>p r. False),
       part_is_internal = (\<lambda>p. p < 4) \<rparr>
     ELEM_RANK 7 = Inr ()"
  using face_rank_refused_in_2d [of
     "\<lparr> entity_rank_count = 4, spatial_dimension = 2, side_rank = EDGE_RANK, MAX_ID = 1000,
       universal_part = 0, locally_owned_part = 1, globally_shared_part = 2, aura_part = 3,
       part_supersets = (\<lambda>p. []), part_subsets = (\<lambda>p. []),
       part_is_ranked = (\<lambda>p. False), part_should_induce = (\<lambda>p r. False),
       part_is_internal = (\<lambda>p. p < 4) \<rparr>" 7]
  by (simp add: is_valid_id_def FACE_RANK_def ELEM_RANK_def)

section \<open>What the part changes leave unchanged\<close>

lemma fold_proj:
  "(\<And>x s. x \<in> set xs \<Longrightarrow> g (f x s) = g s) \<Longrightarrow> g (fold f xs s) = g s"
  by (induction xs arbitrary: s) auto

lemma fold_err_proj:
  "(\<And>x s s'. x \<in> set xs \<Longrightarrow> f x s = Inr s' \<Longrightarrow> g s' = g s) \<Longrightarrow> fold_err f xs s = Inr s' \<Longrightarrow> g s' = g s"
proof (induction xs arbitrary: s)
  case Nil
  then show ?case by simp
next
  case (Cons x xs)
  from Cons.prems(2) obtain s1 where s1: "f x s = Inr s1" "fold_err f xs s1 = Inr s'"
    by (auto split: sum.splits)
  have "g s' = g s1" using Cons.IH[of s1] Cons.prems(1) s1(2) by auto
  moreover have "g s1 = g s" using Cons.prems(1)[of x s s1] s1(1) by simp
  ultimately show ?case by simp
qed

lemma fold_err_inv:
  "(\<And>x s s'. x \<in> set xs \<Longrightarrow> P s \<Longrightarrow> f x s = Inr s' \<Longrightarrow> P s') \<Longrightarrow> P s \<Longrightarrow> fold_err f xs s = Inr s' \<Longrightarrow> P s'"
proof (induction xs arbitrary: s)
  case Nil
  then show ?case by simp
next
  case (Cons x xs)
  from Cons.prems(3) obtain s1 where s1: "f x s = Inr s1" "fold_err f xs s1 = Inr s'"
    by (auto split: sum.splits)
  have "P s1" using Cons.prems(1)[of x s s1] Cons.prems(2) s1(1) by simp
  then show ?case using Cons.IH[of s1] Cons.prems(1) s1(2) by auto
qed

lemma fold_err_total:
  "(\<And>x s. x \<in> set xs \<Longrightarrow> P s \<Longrightarrow> \<exists>s'. f x s = Inr s' \<and> P s') \<Longrightarrow> P s \<Longrightarrow> \<exists>s'. fold_err f xs s = Inr s' \<and> P s'"
proof (induction xs arbitrary: s)
  case Nil
  then show ?case by simp
next
  case (Cons x xs)
  from Cons.prems(1)[of x s] Cons.prems(2) obtain s1 where s1: "f x s = Inr s1" "P s1" by auto
  from Cons.IH[of s1] Cons.prems(1) s1(2) obtain s' where "fold_err f xs s1 = Inr s'" "P s'" by auto
  with s1 show ?case by auto
qed

lemma then_do_Inr: "then_do r f = Inr y \<Longrightarrow> \<exists>x. r = Inr x \<and> f x = Inr y"
  by (cases r) (auto simp: then_do_def)

lemma then_do_simps [simp]: "then_do (Inr x) f = f x" "then_do (Inl e) f = Inl e"
  by (simp_all add: then_do_def)

lemma strip_state_fields:
  "m_mesh_indexes (strip_state m) = m_mesh_indexes m"
  "m_closure_count (strip_state m) = m_closure_count m"
  "m_connectivity (strip_state m) = m_connectivity m"
  "m_entity_keys (strip_state m) = m_entity_keys m"
  "m_mesh_meta_data (strip_state m) = m_mesh_meta_data m"
  by (simp_all add: strip_state_def)

lemma mark_step_strip: "strip_state (set_state m e st) = strip_state m"
  by (simp add: strip_state_def set_state_def)

lemma mark_upward_strip: "strip_state (mark_upward end_rank erank entity m) = strip_state m"
proof (induction end_rank erank entity m rule: mark_upward.induct)
  case (1 end_rank erank entity m)
  show ?case
  proof (cases "state m entity \<noteq> Unchanged")
    case True
    then show ?thesis by (subst mark_upward.simps) simp
  next
    case False
    have "strip_state (fold (\<lambda>rank_up m'.
                   fold (\<lambda>r m''. mark_upward end_rank rank_up (fst r) m'')
                     (connectivity m' entity rank_up) m')
             (rev [Suc erank..<end_rank])
             (set_state m entity Modified)) = strip_state (set_state m entity Modified)"
    proof (rule fold_proj)
      fix rank_up s
      assume ru: "rank_up \<in> set (rev [Suc erank..<end_rank])"
      show "strip_state (fold (\<lambda>r m''. mark_upward end_rank rank_up (fst r) m'') (connectivity s entity rank_up) s) = strip_state s"
      proof (rule fold_proj)
        fix r s2
        assume "r \<in> set (connectivity s entity rank_up)"
        then show "strip_state (mark_upward end_rank rank_up (fst r) s2) = strip_state s2"
          using "1.IH"[OF False ru] by blast
      qed
    qed
    with False show ?thesis by (subst mark_upward.simps) (simp add: mark_step_strip)
  qed
qed

lemma mark_entity_strip:
  "strip_state (mark_entity_and_upward_related_entities_as_modified m e) = strip_state m"
  by (simp add: mark_entity_and_upward_related_entities_as_modified_def mark_upward_strip)

lemma strip_counts_of_strip_state: "strip_counts (strip_state m) = strip_counts m"
  by (simp add: strip_counts_def strip_state_def)

lemma skeleton_of_strip_counts: "skeleton (strip_counts m) = skeleton m"
  by (simp add: strip_counts_def skeleton_def)

lemma strip_state_imp_counts: "strip_state a = strip_state b \<Longrightarrow> strip_counts a = strip_counts b"
  by (metis strip_counts_of_strip_state)

lemma strip_counts_imp_skeleton: "strip_counts a = strip_counts b \<Longrightarrow> skeleton a = skeleton b"
  by (metis skeleton_of_strip_counts)

lemma skeleton_fields:
  "m_mesh_meta_data (skeleton m) = m_mesh_meta_data m"
  "m_parallel_rank (skeleton m) = m_parallel_rank m"
  "m_parallel_size (skeleton m) = m_parallel_size m"
  "m_in_synchronized_state (skeleton m) = m_in_synchronized_state m"
  "m_mesh_indexes_size (skeleton m) = m_mesh_indexes_size m"
  "m_entity_keys (skeleton m) = m_entity_keys m"
  "m_owner (skeleton m) = m_owner m"
  "m_connectivity (skeleton m) = m_connectivity m"
  "m_entity_repo (skeleton m) = m_entity_repo m"
  "m_entity_comm_map (skeleton m) = m_entity_comm_map m"
  "m_entity_comm_list (skeleton m) = m_entity_comm_list m"
  "m_deleted_entities (skeleton m) = m_deleted_entities m"
  "m_deleted_entities_current_modification_cycle (skeleton m) = m_deleted_entities_current_modification_cycle m"
  "m_ghost_reuse_map (skeleton m) = m_ghost_reuse_map m"
  "unprotect_count (skeleton m) = unprotect_count m"
  "sierra_migration (skeleton m) = sierra_migration m"
  "m_add_fmwk_data (skeleton m) = m_add_fmwk_data m"
  by (simp_all add: skeleton_def)

lemma skeleton_eqD:
  assumes "skeleton a = skeleton b"
  shows "m_mesh_meta_data a = m_mesh_meta_data b"
    "m_parallel_rank a = m_parallel_rank b"
    "m_parallel_size a = m_parallel_size b"
    "m_in_synchronized_state a = m_in_synchronized_state b"
    "m_mesh_indexes_size a = m_mesh_indexes_size b"
    "m_entity_keys a = m_entity_keys b"
    "m_owner a = m_owner b"
    "m_connectivity a = m_connectivity b"
    "m_entity_repo a = m_entity_repo b"
    "m_entity_comm_map a = m_entity_comm_map b"
    "m_entity_comm_list a = m_entity_comm_list b"
    "m_deleted_entities a = m_deleted_entities b"
    "m_deleted_entities_current_modification_cycle a = m_deleted_entities_current_modification_cycle b"
    "m_ghost_reuse_map a = m_ghost_reuse_map b"
    "unprotect_count a = unprotect_count b"
    "sierra_migration a = sierra_migration b"
    "m_add_fmwk_data a = m_add_fmwk_data b"
  using assms skeleton_fields by metis+

lemma strip_counts_indexes: "m_mesh_indexes (strip_counts m) = m_mesh_indexes m"
  by (simp add: strip_counts_def)

lemma strip_counts_eqD:
  assumes "strip_counts a = strip_counts b"
  shows "skeleton a = skeleton b" "m_mesh_indexes a = m_mesh_indexes b"
  using assms strip_counts_imp_skeleton strip_counts_indexes by metis+

text \<open>Derived readers of the mesh that depend on the skeleton only.\<close>

lemma skeleton_readers:
  assumes "skeleton a = skeleton b"
  shows "entity_rank a = entity_rank b" "entity_key a = entity_key b"
    "connectivity a = connectivity b" "num_connectivity a = num_connectivity b"
    "parallel_rank a = parallel_rank b" "parallel_size a = parallel_size b"
    "in_synchronized_state a = in_synchronized_state b"
    "require_ok_to_modify a = require_ok_to_modify b"
    "has_relation a = has_relation b"
    "has_upward_connectivity a = has_upward_connectivity b"
    "parallel_owner_rank a = parallel_owner_rank b"
    "internal_entity_comm_map_shared a = internal_entity_comm_map_shared b"
    "in_receive_ghost a = in_receive_ghost b"
  by (simp_all add: skeleton_eqD[OF assms] fun_eq_iff entity_rank_def entity_key_def connectivity_def
      num_connectivity_def
      parallel_rank_def parallel_size_def in_synchronized_state_def require_ok_to_modify_def
      has_relation_def has_upward_connectivity_def parallel_owner_rank_def
      internal_entity_comm_map_shared_def in_receive_ghost_def)

lemma mark_entity_counts:
  "strip_counts (mark_entity_and_upward_related_entities_as_modified m e) = strip_counts m"
  by (rule strip_state_imp_counts) (rule mark_entity_strip)

lemma adjust_closure_count_counts: "strip_counts (adjust_closure_count m e a) = strip_counts m"
  by (simp add: strip_counts_def adjust_closure_count_def)

lemma unprotect_orphaned_node_counts: "strip_counts (unprotect_orphaned_node m e) = strip_counts m"
  by (simp add: strip_counts_def unprotect_orphaned_node_def)

lemma internal_adjust_entity_and_downward_counts:
  "strip_counts (internal_adjust_entity_and_downward_connectivity_closure_count m e b a) = strip_counts m"
proof (cases b)
  case None
  then show ?thesis
    by (simp add: internal_adjust_entity_and_downward_connectivity_closure_count_def adjust_closure_count_counts)
next
  case (Some bk)
  have "strip_counts (fold (\<lambda>rank m'. fold (\<lambda>r m''. adjust_closure_count m'' (fst r) a) (connectivity m' e rank) m')
           [NODE_RANK..<bucket_entity_rank bk] (adjust_closure_count m e a)) = strip_counts (adjust_closure_count m e a)"
    by (intro fold_proj) (simp add: adjust_closure_count_counts)
  with Some show ?thesis
    by (simp add: internal_adjust_entity_and_downward_connectivity_closure_count_def adjust_closure_count_counts)
qed

lemma internal_adjust_closure_count_counts:
  "strip_counts (internal_adjust_closure_count m e a r) = strip_counts m"
  by (simp add: internal_adjust_closure_count_def Let_def internal_adjust_entity_and_downward_counts
      unprotect_orphaned_node_counts)

lemma sort_and_unique_set [simp]: "set (sort_and_unique xs) = set xs"
  by (simp add: sort_and_unique_def)

lemma sort_and_unique_Nil [simp]: "sort_and_unique xs = [] \<longleftrightarrow> xs = []"
  using sort_and_unique_set[of xs] by (metis set_empty)

lemma new_part_list_has_added:
  "set add_parts \<subseteq> set (fst (internal_fill_new_part_list_and_removed_part_list meta b add_parts remove_parts))"
  by (auto simp: internal_fill_new_part_list_and_removed_part_list_def Let_def merge_in_def split: prod.splits)

lemma internal_move_entity_to_new_bucket_frame:
  "skeleton (internal_move_entity_to_new_bucket m e l) = skeleton m
   \<and> (\<exists>rk. m_mesh_indexes (internal_move_entity_to_new_bucket m e l)
             = (m_mesh_indexes m)(e := Some \<lparr> bucket_entity_rank = rk, supersets = l \<rparr>))"
proof -
  let ?rk = "(case bucket_ptr m e of Some b \<Rightarrow> bucket_entity_rank b | None \<Rightarrow> entity_rank m e)"
  let ?m1 = "m\<lparr> m_mesh_indexes := (m_mesh_indexes m)(e := Some \<lparr> bucket_entity_rank = ?rk, supersets = l \<rparr>) \<rparr>"
  have e: "internal_move_entity_to_new_bucket m e l = mark_entity_and_upward_related_entities_as_modified ?m1 e"
    by (simp add: internal_move_entity_to_new_bucket_def Let_def)
  have c: "strip_counts (internal_move_entity_to_new_bucket m e l) = strip_counts ?m1"
    unfolding e by (rule mark_entity_counts)
  have "skeleton ?m1 = skeleton m" by (simp add: skeleton_def)
  with strip_counts_eqD[OF c] show ?thesis by auto
qed

lemma without_propagating_frame:
  assumes "internal_change_entity_parts_without_propagating_to_downward_connected_entities m e a r = (m1, removed)"
  shows "skeleton m1 = skeleton m"
    and "\<exists>b. m_mesh_indexes m1 = (m_mesh_indexes m)(e := Some b) \<and> set a \<subseteq> set (supersets b)"
proof -
  let ?m0 = "internal_adjust_closure_count m e a r"
  let ?l = "fst (internal_fill_new_part_list_and_removed_part_list (m_mesh_meta_data ?m0) (bucket_ptr ?m0 e) a r)"
  have m1: "m1 = internal_move_entity_to_new_bucket ?m0 e ?l"
    using assms
    by (simp add: internal_change_entity_parts_without_propagating_to_downward_connected_entities_def Let_def
        split: prod.splits)
  have c0: "skeleton ?m0 = skeleton m" "m_mesh_indexes ?m0 = m_mesh_indexes m"
    using strip_counts_eqD[OF internal_adjust_closure_count_counts] by auto
  from internal_move_entity_to_new_bucket_frame[of ?m0 e ?l] c0 m1
  show "skeleton m1 = skeleton m" by simp
  from internal_move_entity_to_new_bucket_frame[of ?m0 e ?l] obtain rk where
    "m_mesh_indexes m1 = (m_mesh_indexes ?m0)(e := Some \<lparr> bucket_entity_rank = rk, supersets = ?l \<rparr>)"
    using m1 by auto
  with c0 new_part_list_has_added[of a "m_mesh_meta_data ?m0" "bucket_ptr ?m0 e" r]
  show "\<exists>b. m_mesh_indexes m1 = (m_mesh_indexes m)(e := Some b) \<and> set a \<subseteq> set (supersets b)"
    by (intro exI[of _ "\<lparr> bucket_entity_rank = rk, supersets = ?l \<rparr>"]) simp
qed

lemma change_parts_unfold:
  "internal_change_entity_parts_of_rank erank entity add_parts remove_parts m =
     (if in_synchronized_state m then Inl NotOkToModify
      else if \<not> need_to_change_parts m entity add_parts remove_parts then Inr m
      else
        (let m1 = fst (internal_change_entity_parts_without_propagating_to_downward_connected_entities
                        m entity add_parts remove_parts);
             parts_removed = snd (internal_change_entity_parts_without_propagating_to_downward_connected_entities
                        m entity add_parts remove_parts)
         in if are_any_parts_ranked (m_mesh_meta_data m1) add_parts \<or> parts_removed \<noteq> []
            then propagate_all erank entity
                   (fill_inducible_parts_from_list (m_mesh_meta_data m1) add_parts erank)
                   (fill_inducible_parts_from_list (m_mesh_meta_data m1) parts_removed erank) m1
            else Inr m1))"
  by (subst internal_change_entity_parts_of_rank.simps)
     (simp add: require_ok_to_modify_def need_to_change_parts_def propagate_all_def propagate_one_def
        Let_def split_beta cong: fold_err_cong)

lemma buckets_kept_refl: "buckets_kept m m"
  by (simp add: buckets_kept_def)

lemma buckets_kept_trans: "buckets_kept a b \<Longrightarrow> buckets_kept b c \<Longrightarrow> buckets_kept a c"
  by (simp add: buckets_kept_def)

lemma buckets_kept_eq: "m_mesh_indexes b = m_mesh_indexes a \<Longrightarrow> buckets_kept a b"
  by (simp add: buckets_kept_def)

lemma connectivity_rank: "r \<in> set (connectivity m e irank) \<Longrightarrow> entity_rank m (fst r) = irank"
  by (simp add: connectivity_def)

lemma propagate_one_inv:
  assumes IH: "\<And>e a r m m'. internal_change_entity_parts_of_rank irank e a r m = Inr m' \<Longrightarrow> change_parts_post irank e a m m'"
    and lt: "irank < erank"
    and inv: "propagate_inv erank m1 m3"
    and rk: "entity_rank m1 (fst r) = irank"
    and step: "propagate_one entity irank addParts parts_to_remove r m3 = Inr m3'"
  shows "propagate_inv erank m1 m3'"
proof (cases "fst r = InvalidEntity")
  case True
  with step inv show ?thesis by (simp add: propagate_one_def)
next
  case False
  let ?e_to = "fst r"
  from step False obtain mx ax where
    rec: "internal_change_entity_parts_of_rank irank ?e_to addParts ax mx = Inr m3'"
    and mx: "mx = m3 \<or> mx = mark_entity_and_upward_related_entities_as_modified m3 ?e_to"
    unfolding propagate_one_def Let_def
    by (auto dest!: then_do_Inr split: if_splits)
  have c: "skeleton mx = skeleton m3" "m_mesh_indexes mx = m_mesh_indexes m3"
    using mx strip_counts_eqD[OF mark_entity_counts[of m3 ?e_to]] by auto
  from inv have i: "skeleton m3 = skeleton m1" "buckets_kept m1 m3"
    "\<And>x. erank \<le> entity_rank m1 x \<Longrightarrow> m_mesh_indexes m3 x = m_mesh_indexes m1 x"
    by (auto simp: propagate_inv_def)
  have skx: "skeleton mx = skeleton m1" using c i by simp
  from IH[OF rec] have p: "skeleton m3' = skeleton mx" "buckets_kept mx m3'"
    "\<And>x. x \<noteq> ?e_to \<Longrightarrow> irank \<le> entity_rank mx x \<Longrightarrow> m_mesh_indexes m3' x = m_mesh_indexes mx x"
    by (auto simp: change_parts_post_def)
  have rkx: "entity_rank mx = entity_rank m1" using skeleton_readers(1)[OF skx] .
  have "buckets_kept m1 m3'"
    using i(2) p(2) c(2) by (auto simp: buckets_kept_def)
  moreover have "\<And>x. erank \<le> entity_rank m1 x \<Longrightarrow> m_mesh_indexes m3' x = m_mesh_indexes m1 x"
  proof -
    fix x assume x: "erank \<le> entity_rank m1 x"
    with rk lt have "x \<noteq> ?e_to" by auto
    moreover from x lt rkx have "irank \<le> entity_rank mx x" by simp
    ultimately have "m_mesh_indexes m3' x = m_mesh_indexes mx x" by (rule p(3))
    with c(2) i(3)[OF x] show "m_mesh_indexes m3' x = m_mesh_indexes m1 x" by simp
  qed
  ultimately show ?thesis using p(1) skx by (simp add: propagate_inv_def)
qed

lemma propagate_all_inv:
  assumes IH: "\<And>irank e a r m m'. irank < erank \<Longrightarrow>
                 internal_change_entity_parts_of_rank irank e a r m = Inr m' \<Longrightarrow> change_parts_post irank e a m m'"
    and run: "propagate_all erank entity addParts parts_to_remove m1 = Inr m'"
  shows "propagate_inv erank m1 m'"
proof -
  have start: "propagate_inv erank m1 m1"
    by (simp add: propagate_inv_def buckets_kept_refl)
  show ?thesis
  proof (rule fold_err_inv[where P = "propagate_inv erank m1", OF _ start run[unfolded propagate_all_def]])
    fix irank m2 m2'
    assume ir: "irank \<in> set [0..<erank]" and inv2: "propagate_inv erank m1 m2"
      and inner: "fold_err (propagate_one entity irank addParts parts_to_remove) (connectivity m2 entity irank) m2 = Inr m2'"
    from ir have lt: "irank < erank" by simp
    from inv2 have "skeleton m2 = skeleton m1" by (simp add: propagate_inv_def)
    then have rk2: "entity_rank m2 = entity_rank m1" by (rule skeleton_readers(1))
    show "propagate_inv erank m1 m2'"
    proof (rule fold_err_inv[where P = "propagate_inv erank m1", OF _ inv2 inner])
      fix r m3 m3'
      assume r: "r \<in> set (connectivity m2 entity irank)" and inv3: "propagate_inv erank m1 m3"
        and step: "propagate_one entity irank addParts parts_to_remove r m3 = Inr m3'"
      from connectivity_rank[OF r] rk2 have "entity_rank m1 (fst r) = irank" by simp
      from propagate_one_inv[OF IH[OF lt] lt inv3 this step]
      show "propagate_inv erank m1 m3'" .
    qed
  qed
qed

lemma member_all_set: "member_all b a \<Longrightarrow> set a \<subseteq> set (supersets b)"
  by (auto simp: member_all_def list_all_iff bucket_member_def)

lemma change_parts_frame:
  "internal_change_entity_parts_of_rank erank e a r m = Inr m' \<Longrightarrow> change_parts_post erank e a m m'"
proof (induction erank arbitrary: e a r m m' rule: less_induct)
  case (less erank)
  note run = less.prems
  show ?case
  proof (cases "need_to_change_parts m e a r")
    case False
    with run have eq: "m' = m" by (simp add: change_parts_unfold split: if_splits)
    from False obtain b where b: "bucket_ptr m e = Some b" "member_all b a"
      by (auto simp: need_to_change_parts_def split: option.splits)
    then show ?thesis unfolding eq
      using member_all_set[OF b(2)]
      by (auto simp: change_parts_post_def buckets_kept_refl bucket_ptr_def)
  next
    case True
    obtain m1 removed where wp:
      "internal_change_entity_parts_without_propagating_to_downward_connected_entities m e a r = (m1, removed)"
      by (cases "internal_change_entity_parts_without_propagating_to_downward_connected_entities m e a r") auto
    from without_propagating_frame[OF wp] obtain b where
      f: "skeleton m1 = skeleton m" "m_mesh_indexes m1 = (m_mesh_indexes m)(e := Some b)" "set a \<subseteq> set (supersets b)"
      by auto
    have rk1: "entity_rank m1 = entity_rank m" using skeleton_readers(1)[OF f(1)] .
    have "propagate_inv erank m1 m'"
    proof (cases "are_any_parts_ranked (m_mesh_meta_data m1) a \<or> removed \<noteq> []")
      case False
      with run True wp have "m' = m1" by (simp add: change_parts_unfold Let_def split: if_splits)
      then show ?thesis by (simp add: propagate_inv_def buckets_kept_refl)
    next
      case needprop: True
      with run True wp obtain ap rp where "propagate_all erank e ap rp m1 = Inr m'"
        by (simp add: change_parts_unfold Let_def split: if_splits)
      from propagate_all_inv[OF less.IH this] show ?thesis .
    qed
    then have i: "skeleton m' = skeleton m1" "buckets_kept m1 m'"
      "\<And>x. erank \<le> entity_rank m1 x \<Longrightarrow> m_mesh_indexes m' x = m_mesh_indexes m1 x"
      by (auto simp: propagate_inv_def)
    have "buckets_kept m m'" using i(2) f(2) by (auto simp: buckets_kept_def)
    moreover have "\<forall>x. x \<noteq> e \<and> erank \<le> entity_rank m x \<longrightarrow> m_mesh_indexes m' x = m_mesh_indexes m x"
      using i(3) f(2) rk1 by auto
    moreover have "erank \<le> entity_rank m e \<longrightarrow> (\<exists>b. m_mesh_indexes m' e = Some b \<and> set a \<subseteq> set (supersets b))"
      using i(3)[of e] f(2,3) rk1 by auto
    ultimately show ?thesis using i(1) f(1) by (simp add: change_parts_post_def)
  qed
qed

lemma relations_have_buckets_kept:
  assumes "relations_have_buckets m" "skeleton s = skeleton m" "buckets_kept m s"
  shows "relations_have_buckets s"
  using assms skeleton_eqD(8)[OF assms(2)]
  by (auto simp: relations_have_buckets_def buckets_kept_def)

lemma connectivity_subset: "r \<in> set (connectivity m e irank) \<Longrightarrow> r \<in> set (m_connectivity m e)"
  by (simp add: connectivity_def)

lemma insert_all_total:
  assumes "relations_have_buckets m"
  shows "\<exists>l. internal_insert_all_parts_induced_from_higher_rank_entities_to_vector m entity e_to acc = Inr l"
proof -
  have inner: "\<And>rk acc. \<exists>l. fold_err (\<lambda>r acc'.
              if entity \<noteq> fst r
              then (case bucket_ptr m (fst r) of
                      None \<Rightarrow> Inl NullBucket
                    | Some curBucket \<Rightarrow>
                        Inr (get_part_ordinals_to_induce_on_lower_ranks (m_mesh_meta_data m) curBucket (entity_rank m e_to) acc'))
              else Inr acc')
             (connectivity m e_to rk) acc = Inr l \<and> True"
  proof -
    fix rk acc
    show "\<exists>l. fold_err (\<lambda>r acc'.
              if entity \<noteq> fst r
              then (case bucket_ptr m (fst r) of
                      None \<Rightarrow> Inl NullBucket
                    | Some curBucket \<Rightarrow>
                        Inr (get_part_ordinals_to_induce_on_lower_ranks (m_mesh_meta_data m) curBucket (entity_rank m e_to) acc'))
              else Inr acc')
             (connectivity m e_to rk) acc = Inr l \<and> True"
    proof (rule fold_err_total[where P = "\<lambda>_. True"])
      fix r s assume "r \<in> set (connectivity m e_to rk)"
      then have "r \<in> set (m_connectivity m e_to)" by (rule connectivity_subset)
      then have "m_mesh_indexes m (fst r) \<noteq> None"
        using assms unfolding relations_have_buckets_def by blast
      then show "\<exists>s'. (if entity \<noteq> fst r
              then (case bucket_ptr m (fst r) of
                      None \<Rightarrow> Inl NullBucket
                    | Some curBucket \<Rightarrow>
                        Inr (get_part_ordinals_to_induce_on_lower_ranks (m_mesh_meta_data m) curBucket (entity_rank m e_to) s))
              else Inr s) = Inr s' \<and> True"
        by (auto simp: bucket_ptr_def)
    qed simp
  qed
  have "\<exists>l. fold_err (\<lambda>to_rel_rank_i acc. fold_err (\<lambda>r acc'.
              if entity \<noteq> fst r
              then (case bucket_ptr m (fst r) of
                      None \<Rightarrow> Inl NullBucket
                    | Some curBucket \<Rightarrow>
                        Inr (get_part_ordinals_to_induce_on_lower_ranks (m_mesh_meta_data m) curBucket (entity_rank m e_to) acc'))
              else Inr acc')
             (connectivity m e_to to_rel_rank_i) acc)
          [Suc (entity_rank m e_to)..<entity_rank_count (m_mesh_meta_data m)] acc = Inr l \<and> True"
    by (rule fold_err_total[where P = "\<lambda>_. True"]) (use inner in auto)
  then show ?thesis
    by (simp add: internal_insert_all_parts_induced_from_higher_rank_entities_to_vector_def Let_def)
qed

lemma propagate_one_total:
  assumes IH: "\<And>e a r m. \<not> in_synchronized_state m \<Longrightarrow> relations_have_buckets m \<Longrightarrow>
                 \<exists>m'. internal_change_entity_parts_of_rank irank e a r m = Inr m'"
    and ns: "\<not> in_synchronized_state m1" and rb: "relations_have_buckets m1"
    and ok: "propagate_ok m1 m3"
    and r: "r \<in> set (m_connectivity m1 entity)"
  shows "\<exists>m3'. propagate_one entity irank addParts parts_to_remove r m3 = Inr m3' \<and> propagate_ok m1 m3'"
proof (cases "fst r = InvalidEntity")
  case True
  with ok show ?thesis by (simp add: propagate_one_def)
next
  case False
  let ?e_to = "fst r"
  let ?mk = "mark_entity_and_upward_related_entities_as_modified m3 ?e_to"
  from ok have sk3: "skeleton m3 = skeleton m1" and bk3: "buckets_kept m1 m3" by (auto simp: propagate_ok_def)
  have rb3: "relations_have_buckets m3" using relations_have_buckets_kept[OF rb sk3 bk3] .
  have ns3: "\<not> in_synchronized_state m3" using ns skeleton_readers(7)[OF sk3] by simp
  have ck: "skeleton ?mk = skeleton m3" "m_mesh_indexes ?mk = m_mesh_indexes m3"
    using strip_counts_eqD[OF mark_entity_counts[of m3 ?e_to]] by auto
  have rbk: "relations_have_buckets ?mk"
    using relations_have_buckets_kept[OF rb3 ck(1) buckets_kept_eq[OF ck(2)]] .
  have nsk: "\<not> in_synchronized_state ?mk" using ns3 skeleton_readers(7)[OF ck(1)] by simp
  have bkt: "bucket_ptr m3 ?e_to \<noteq> None"
    using rb r bk3 by (auto simp: relations_have_buckets_def buckets_kept_def bucket_ptr_def)
  have fin: "\<And>mx ax. mx = m3 \<or> mx = ?mk \<Longrightarrow>
        \<exists>m3'. internal_change_entity_parts_of_rank irank ?e_to addParts ax mx = Inr m3' \<and> propagate_ok m1 m3'"
  proof -
    fix mx ax assume mx: "mx = m3 \<or> mx = ?mk"
    then have a: "\<not> in_synchronized_state mx" "relations_have_buckets mx"
      "skeleton mx = skeleton m3" "m_mesh_indexes mx = m_mesh_indexes m3"
      using ns3 rb3 nsk rbk ck by auto
    from IH[OF a(1,2)] obtain m3' where rec: "internal_change_entity_parts_of_rank irank ?e_to addParts ax mx = Inr m3'"
      by blast
    from change_parts_frame[OF rec] have "skeleton m3' = skeleton mx" "buckets_kept mx m3'"
      by (auto simp: change_parts_post_def)
    with a(3,4) sk3 bk3 have "propagate_ok m1 m3'"
      by (auto simp: propagate_ok_def buckets_kept_def)
    with rec show "\<exists>m3'. internal_change_entity_parts_of_rank irank ?e_to addParts ax mx = Inr m3' \<and> propagate_ok m1 m3'"
      by blast
  qed
  obtain remote where rem: "(if parallel_size m3 = 1 then Inr False
              else (case bucket_ptr m3 ?e_to of
                      None \<Rightarrow> Inl NullBucket
                    | Some b \<Rightarrow> Inr (shared (m_mesh_meta_data m3) b))) = Inr remote"
  proof (cases "parallel_size m3 = 1")
    case True
    then show ?thesis using that[of False] by simp
  next
    case False
    from bkt obtain b where "bucket_ptr m3 ?e_to = Some b" by auto
    with False show ?thesis using that[of "shared (m_mesh_meta_data m3) b"] by simp
  qed
  show ?thesis
  proof (cases remote)
    case True
    with rem False fin[of ?mk "[]"] show ?thesis by (simp add: propagate_one_def Let_def)
  next
    case nr: False
    show ?thesis
    proof (cases "parts_to_remove = []")
      case True
      with rem False nr fin[of m3 "[]"] show ?thesis by (simp add: propagate_one_def Let_def)
    next
      case ne: False
      from insert_all_total[OF rb3] obtain l where
        l: "internal_insert_all_parts_induced_from_higher_rank_entities_to_vector m3 entity ?e_to [] = Inr l"
        by blast
      with rem False nr ne fin[of m3 "internal_fill_parts_to_actually_remove parts_to_remove l"]
      show ?thesis by (simp add: propagate_one_def Let_def)
    qed
  qed
qed

lemma propagate_all_total:
  assumes IH: "\<And>irank e a r m. irank < erank \<Longrightarrow> \<not> in_synchronized_state m \<Longrightarrow> relations_have_buckets m \<Longrightarrow>
                 \<exists>m'. internal_change_entity_parts_of_rank irank e a r m = Inr m'"
    and ns: "\<not> in_synchronized_state m1" and rb: "relations_have_buckets m1"
  shows "\<exists>m'. propagate_all erank entity addParts parts_to_remove m1 = Inr m' \<and> propagate_ok m1 m'"
  unfolding propagate_all_def
proof (rule fold_err_total[where P = "propagate_ok m1"])
  show "propagate_ok m1 m1" by (simp add: propagate_ok_def buckets_kept_refl)
next
  fix irank m2
  assume ir: "irank \<in> set [0..<erank]" and ok2: "propagate_ok m1 m2"
  then have lt: "irank < erank" by simp
  from ok2 have "skeleton m2 = skeleton m1" by (simp add: propagate_ok_def)
  then have c2: "m_connectivity m2 = m_connectivity m1" by (rule skeleton_eqD(8))
  show "\<exists>s'. fold_err (propagate_one entity irank addParts parts_to_remove) (connectivity m2 entity irank) m2 = Inr s'
          \<and> propagate_ok m1 s'"
  proof (rule fold_err_total[where P = "propagate_ok m1", OF _ ok2])
    fix r m3
    assume r: "r \<in> set (connectivity m2 entity irank)" and ok3: "propagate_ok m1 m3"
    from connectivity_subset[OF r] c2 have "r \<in> set (m_connectivity m1 entity)" by simp
    from propagate_one_total[OF IH[OF lt] ns rb ok3 this]
    show "\<exists>s'. propagate_one entity irank addParts parts_to_remove r m3 = Inr s' \<and> propagate_ok m1 s'" by blast
  qed
qed

lemma change_parts_total:
  "\<not> in_synchronized_state m \<Longrightarrow> relations_have_buckets m \<Longrightarrow>
   \<exists>m'. internal_change_entity_parts_of_rank erank e a r m = Inr m'"
proof (induction erank arbitrary: e a r m rule: less_induct)
  case (less erank)
  obtain m1 removed where wp:
    "internal_change_entity_parts_without_propagating_to_downward_connected_entities m e a r = (m1, removed)"
    by (cases "internal_change_entity_parts_without_propagating_to_downward_connected_entities m e a r") auto
  from without_propagating_frame[OF wp] obtain b where
    f: "skeleton m1 = skeleton m" "m_mesh_indexes m1 = (m_mesh_indexes m)(e := Some b)"
    by auto
  have bk: "buckets_kept m m1" using f(2) by (simp add: buckets_kept_def)
  have ns1: "\<not> in_synchronized_state m1" using less.prems(1) skeleton_readers(7)[OF f(1)] by simp
  have rb1: "relations_have_buckets m1" using relations_have_buckets_kept[OF less.prems(2) f(1) bk] .
  from propagate_all_total[OF less.IH ns1 rb1]
  have "\<And>ap rp. \<exists>m'. propagate_all erank e ap rp m1 = Inr m'" by blast
  then show ?case
    using less.prems(1) wp by (simp add: change_parts_unfold Let_def)
qed





lemma internal_change_entity_parts_frame:
  assumes "internal_change_entity_parts m e a r = Inr m'"
  shows "skeleton m' = skeleton m" "buckets_kept m m'"
    "\<exists>b. m_mesh_indexes m' e = Some b \<and> set a \<subseteq> set (supersets b)"
    "\<And>x. x \<noteq> e \<Longrightarrow> entity_rank m e \<le> entity_rank m x \<Longrightarrow> m_mesh_indexes m' x = m_mesh_indexes m x"
  using change_parts_frame[OF assms[unfolded internal_change_entity_parts_def]]
  by (auto simp: change_parts_post_def)

lemma internal_change_entity_parts_total:
  "\<not> in_synchronized_state m \<Longrightarrow> relations_have_buckets m \<Longrightarrow> \<exists>m'. internal_change_entity_parts m e a r = Inr m'"
  unfolding internal_change_entity_parts_def by (rule change_parts_total)






section \<open>Properties of the example mesh\<close>

lemma example_mesh_is_constructed:
  "\<not> isl example_construction
   \<and> m_mesh_indexes_size (projr example_construction) = m_mesh_indexes_size example_mesh
   \<and> map (entity_view (projr example_construction)) [1, 2, 3] = map (entity_view example_mesh) [1, 2, 3]"
  by code_simp

lemma example_mesh_well_connected: "well_connected example_mesh"
  unfolding well_connected_def
  by (auto simp: example_mesh_def example_meta_def is_valid_def entity_rank_def has_relation_def
      split: if_splits)

lemma example_mesh_relations_have_buckets: "relations_have_buckets example_mesh"
  unfolding relations_have_buckets_def
  by (auto simp: example_mesh_def split: if_splits)

section \<open>Properties of the declaration of entities\<close>



section \<open>Properties of the relations\<close>

lemma core_of_skeleton: "skeleton a = skeleton b \<Longrightarrow> core a = core b"
  by (simp add: core_def)

lemma core_fields:
  "m_mesh_meta_data (core m) = m_mesh_meta_data m"
  "m_parallel_rank (core m) = m_parallel_rank m"
  "m_parallel_size (core m) = m_parallel_size m"
  "m_in_synchronized_state (core m) = m_in_synchronized_state m"
  "m_mesh_indexes_size (core m) = m_mesh_indexes_size m"
  "m_entity_keys (core m) = m_entity_keys m"
  "m_owner (core m) = m_owner m"
  "m_entity_repo (core m) = m_entity_repo m"
  "m_entity_comm_map (core m) = m_entity_comm_map m"
  by (simp_all add: core_def skeleton_def)

lemma core_eqD:
  assumes "core a = core b"
  shows "m_mesh_meta_data a = m_mesh_meta_data b"
    "m_parallel_rank a = m_parallel_rank b"
    "m_parallel_size a = m_parallel_size b"
    "m_in_synchronized_state a = m_in_synchronized_state b"
    "m_mesh_indexes_size a = m_mesh_indexes_size b"
    "m_entity_keys a = m_entity_keys b"
    "m_owner a = m_owner b"
    "m_entity_repo a = m_entity_repo b"
    "m_entity_comm_map a = m_entity_comm_map b"
  using assms core_fields by metis+

lemma core_readers:
  assumes "core a = core b"
  shows "entity_rank a = entity_rank b" "entity_key a = entity_key b"
    "parallel_rank a = parallel_rank b" "parallel_size a = parallel_size b"
    "in_synchronized_state a = in_synchronized_state b"
    "require_ok_to_modify a = require_ok_to_modify b"
    "parallel_owner_rank a = parallel_owner_rank b"
    "internal_entity_comm_map_shared a = internal_entity_comm_map_shared b"
    "in_receive_ghost a = in_receive_ghost b"
  by (simp_all add: core_eqD[OF assms] fun_eq_iff entity_rank_def entity_key_def
      parallel_rank_def parallel_size_def in_synchronized_state_def require_ok_to_modify_def
      parallel_owner_rank_def internal_entity_comm_map_shared_def in_receive_ghost_def)

lemma skeleton_from_core:
  "core a = core b \<Longrightarrow> m_connectivity a = m_connectivity b \<Longrightarrow> skeleton a = skeleton b"
proof -
  assume c: "core a = core b" and k: "m_connectivity a = m_connectivity b"
  have "skeleton a = (core a)\<lparr> m_connectivity := m_connectivity a \<rparr>" by (simp add: core_def skeleton_def)
  moreover have "skeleton b = (core b)\<lparr> m_connectivity := m_connectivity b \<rparr>" by (simp add: core_def skeleton_def)
  ultimately show ?thesis using c k by simp
qed

lemma has_relation_iff:
  "has_relation m a b k \<longleftrightarrow> (\<exists>q. (b, k, q) \<in> set (m_connectivity m a))"
  by (force simp: has_relation_def list_ex_iff)

lemma bucket_declare_relation_facts:
  assumes "bucket_declare_relation m a b k p = (m1, modified)"
  shows "core m1 = core m" "m_mesh_indexes m1 = m_mesh_indexes m"
    "modified \<longleftrightarrow> \<not> has_relation m a b k"
    "m_connectivity m1 = (if modified then (m_connectivity m)(a := m_connectivity m a @ [(b, k, p)]) else m_connectivity m)"
  using assms by (auto simp: bucket_declare_relation_def core_def skeleton_def split: if_splits)

lemma counts_core: "strip_counts a = strip_counts b \<Longrightarrow> core a = core b"
  using strip_counts_imp_skeleton core_of_skeleton by blast

lemma internal_declare_relation_one_way_facts:
  assumes "internal_declare_relation_one_way m a b k p = Inr (m1, modified)"
  shows "core m1 = core m" "m_mesh_indexes m1 = m_mesh_indexes m"
    "modified \<longleftrightarrow> \<not> has_relation m a b k"
    "m_connectivity m1 = (if modified then (m_connectivity m)(a := m_connectivity m a @ [(b, k, p)]) else m_connectivity m)"
proof -
  obtain m0 where bd: "bucket_declare_relation m a b k p = (m0, modified)"
    and sc: "strip_counts m1 = strip_counts m0"
    using assms
    unfolding internal_declare_relation_one_way_def Let_def
    by (auto dest!: then_do_Inr simp: unprotect_orphaned_node_counts adjust_closure_count_counts
        split: option.splits prod.splits if_splits)
  from strip_counts_eqD[OF sc] have e: "skeleton m1 = skeleton m0" "m_mesh_indexes m1 = m_mesh_indexes m0" by auto
  from bucket_declare_relation_facts[OF bd] core_of_skeleton[OF e(1)] e(2) skeleton_eqD(8)[OF e(1)]
  show "core m1 = core m" "m_mesh_indexes m1 = m_mesh_indexes m"
    "modified \<longleftrightarrow> \<not> has_relation m a b k"
    "m_connectivity m1 = (if modified then (m_connectivity m)(a := m_connectivity m a @ [(b, k, p)]) else m_connectivity m)"
    by auto
qed

lemma mark_entity_skeleton:
  "skeleton (mark_entity_and_upward_related_entities_as_modified m e) = skeleton m"
  "m_mesh_indexes (mark_entity_and_upward_related_entities_as_modified m e) = m_mesh_indexes m"
  using strip_counts_eqD[OF mark_entity_counts[of m e]] by auto

text \<open>The connectivity after \<open>internal_declare_relation\<close>.\<close>

lemma internal_declare_relation_facts:
  assumes "internal_declare_relation m a b k p = Inr m'"
  shows "core m' = core m" "buckets_kept m m'"
    "entity_rank m a \<noteq> entity_rank m b" "is_valid m a" "is_valid m b"
    "m_connectivity m' =
       (if has_relation m a b k then m_connectivity m
        else if has_relation m b a k \<or> a = b then (m_connectivity m)(a := m_connectivity m a @ [(b, k, p)])
        else (m_connectivity m)(a := m_connectivity m a @ [(b, k, p)], b := m_connectivity m b @ [(a, k, p)]))"
proof -
  from assms obtain m1 is_new m2 m3 bucketFrom l where
    v: "require_valid_relation m a b = Inr ()"
    and o1: "internal_declare_relation_one_way m a b k p = Inr (m1, is_new)"
    and o2: "(if is_new then then_do (internal_declare_relation_one_way m1 b a k p) (\<lambda>(m2, _). Inr m2) else Inr m1) = Inr m2"
    and m3: "m3 = (if is_new
                 then mark_entity_and_upward_related_entities_as_modified
                        (mark_entity_and_upward_related_entities_as_modified m2 b) a
                 else m2)"
    and cp: "internal_change_entity_parts m3 b l [] = Inr m'"
    unfolding internal_declare_relation_def Let_def
    by (auto dest!: then_do_Inr split: option.splits prod.splits)
  from v show "entity_rank m a \<noteq> entity_rank m b" "is_valid m a" "is_valid m b"
    by (auto simp: require_valid_relation_def split: if_splits)
  then have ab: "a \<noteq> b" by auto
  note f1 = internal_declare_relation_one_way_facts[OF o1]
  have f2: "core m2 = core m1 \<and> m_mesh_indexes m2 = m_mesh_indexes m1
      \<and> m_connectivity m2 = (if is_new \<and> \<not> has_relation m1 b a k
                              then (m_connectivity m1)(b := m_connectivity m1 b @ [(a, k, p)]) else m_connectivity m1)"
  proof (cases is_new)
    case False
    with o2 show ?thesis by simp
  next
    case True
    with o2 obtain c where "internal_declare_relation_one_way m1 b a k p = Inr (m2, c)"
      by (auto dest!: then_do_Inr)
    from internal_declare_relation_one_way_facts[OF this] True show ?thesis by auto
  qed
  have f3: "skeleton m3 = skeleton m2" "m_mesh_indexes m3 = m_mesh_indexes m2"
    using m3 mark_entity_skeleton by (auto split: if_splits)
  note f4 = internal_change_entity_parts_frame(1,2)[OF cp]
  have "core m' = core m3" using core_of_skeleton[OF f4(1)] .
  also have "\<dots> = core m2" using core_of_skeleton[OF f3(1)] .
  finally show "core m' = core m" using f2 f1(1) by simp
  show "buckets_kept m m'" using f4(2) f3(2) f2 f1(2) by (simp add: buckets_kept_def)
  have hb: "has_relation m1 b a k \<longleftrightarrow> has_relation m b a k"
    using f1(4) ab by (auto simp: has_relation_iff)
  have "m_connectivity m' = m_connectivity m2"
    using skeleton_eqD(8)[OF f4(1)] skeleton_eqD(8)[OF f3(1)] by simp
  then show "m_connectivity m' =
       (if has_relation m a b k then m_connectivity m
        else if has_relation m b a k \<or> a = b then (m_connectivity m)(a := m_connectivity m a @ [(b, k, p)])
        else (m_connectivity m)(a := m_connectivity m a @ [(b, k, p)], b := m_connectivity m b @ [(a, k, p)]))"
    using f2 f1(3,4) hb ab by (auto simp: fun_eq_iff)
qed

lemma bucket_destroy_relation_facts:
  assumes "bucket_destroy_relation m a b k = (m1, changed)"
  shows "core m1 = core m" "m_mesh_indexes m1 = m_mesh_indexes m"
    "changed \<longleftrightarrow> has_relation m a b k"
    "m_connectivity m1 = (m_connectivity m)(a := filter (\<lambda>r. \<not> (fst r = b \<and> fst (snd r) = k)) (m_connectivity m a))"
proof -
  have "\<not> has_relation m a b k \<Longrightarrow> filter (\<lambda>r. \<not> (fst r = b \<and> fst (snd r) = k)) (m_connectivity m a) = m_connectivity m a"
    by (auto simp: has_relation_def list_ex_iff filter_id_conv)
  with assms show "core m1 = core m" "m_mesh_indexes m1 = m_mesh_indexes m"
    "changed \<longleftrightarrow> has_relation m a b k"
    "m_connectivity m1 = (m_connectivity m)(a := filter (\<lambda>r. \<not> (fst r = b \<and> fst (snd r) = k)) (m_connectivity m a))"
    by (auto simp: bucket_destroy_relation_def core_def skeleton_def split: if_splits)
qed

lemma internal_destroy_relation_unfold:
  "internal_destroy_relation m a b k =
     then_do (require_ok_to_modify m) (\<lambda>_.
     then_do (require_valid_relation m a b) (\<lambda>_.
     then_do (destroy_relation_parts_stage m a b k) (\<lambda>m1. destroy_relation_lists_stage m1 a b k)))"
  unfolding internal_destroy_relation_def destroy_relation_parts_stage_def destroy_relation_lists_stage_def Let_def
  by (rule refl)

lemma destroy_relation_parts_stage_frame:
  assumes "destroy_relation_parts_stage m a b k = Inr m1"
  shows "skeleton m1 = skeleton m" "buckets_kept m m1"
proof -
  have "m1 = m \<or> (\<exists>del. internal_change_entity_parts m b [] del = Inr m1)"
    using assms unfolding destroy_relation_parts_stage_def
    by (auto dest!: then_do_Inr split: if_splits)
  then show "skeleton m1 = skeleton m" "buckets_kept m m1"
    using internal_change_entity_parts_frame(1,2) buckets_kept_refl by auto
qed

text \<open>The connectivity after \<open>internal_destroy_relation\<close>.\<close>

lemma internal_destroy_relation_facts:
  assumes "internal_destroy_relation m a b k = Inr (m', changed)"
  shows "core m' = core m" "buckets_kept m m'"
    "entity_rank m a \<noteq> entity_rank m b" "is_valid m a" "is_valid m b"
    "changed \<longleftrightarrow> has_relation m a b k"
    "m_connectivity m' =
       (if has_relation m a b k
        then (m_connectivity m)(a := without_relation b k (m_connectivity m a),
                                b := without_relation a k (m_connectivity m b))
        else m_connectivity m)"
proof -
  from assms obtain m1 where
    v: "require_valid_relation m a b = Inr ()"
    and p1: "destroy_relation_parts_stage m a b k = Inr m1"
    and st: "destroy_relation_lists_stage m1 a b k = Inr (m', changed)"
    unfolding internal_destroy_relation_unfold
    by (auto dest!: then_do_Inr)
  from st obtain b_from where
    bf: "bucket_ptr m1 a = Some b_from"
    and rest: "(let meta = m_mesh_meta_data m1;
                    (m2, caused_change_fwd) = bucket_destroy_relation m1 a b k;
                    m3 = (if caused_change_fwd \<and> owned meta b_from \<and> entity_rank m2 b < entity_rank m2 a
                          then adjust_closure_count m2 b (- 1) else m2)
                in if caused_change_fwd
                   then (case bucket_ptr m3 b of
                           None \<Rightarrow> Inl NullBucket
                         | Some b_to \<Rightarrow>
                            (let (m4, caused_change) = bucket_destroy_relation m3 b a k;
                                 m5 = (if caused_change \<and> owned meta b_to \<and> entity_rank m4 a < entity_rank m4 b
                                       then adjust_closure_count m4 a (- 1) else m4)
                             in Inr (mark_entity_and_upward_related_entities_as_modified
                                       (mark_entity_and_upward_related_entities_as_modified m5 b) a,
                                     caused_change_fwd)))
                   else Inr (m3, caused_change_fwd)) = Inr (m', changed)"
    unfolding destroy_relation_lists_stage_def
    by (cases "bucket_ptr m1 a") auto
  from v show vv: "entity_rank m a \<noteq> entity_rank m b" "is_valid m a" "is_valid m b"
    by (auto simp: require_valid_relation_def split: if_splits)
  then have ab: "a \<noteq> b" by auto
  note s1 = destroy_relation_parts_stage_frame[OF p1]
  obtain m2 c where d1: "bucket_destroy_relation m1 a b k = (m2, c)"
    by (cases "bucket_destroy_relation m1 a b k") auto
  note g1 = bucket_destroy_relation_facts[OF d1]
  have c1: "c \<longleftrightarrow> has_relation m a b k"
    using g1(3) skeleton_readers(9)[OF s1(1)] by simp
  let ?m3 = "(if c \<and> owned (m_mesh_meta_data m1) b_from \<and> entity_rank m2 b < entity_rank m2 a
                          then adjust_closure_count m2 b (- 1) else m2)"
  have s3: "skeleton ?m3 = skeleton m2" "m_mesh_indexes ?m3 = m_mesh_indexes m2"
    using strip_counts_eqD[OF adjust_closure_count_counts] by auto
  show "changed \<longleftrightarrow> has_relation m a b k"
    using rest d1 c1 by (auto simp: Let_def split: if_splits option.splits prod.splits)
  have "core m' = core m \<and> buckets_kept m m' \<and> m_connectivity m' =
       (if has_relation m a b k
        then (m_connectivity m)(a := without_relation b k (m_connectivity m a),
                                b := without_relation a k (m_connectivity m b))
        else m_connectivity m)" (is ?goal)
  proof (cases c)
    case False
    with rest d1 have "m' = m2" by (simp add: Let_def)
    moreover have "m_connectivity m2 = m_connectivity m"
      using g1(3,4) False skeleton_eqD(8)[OF s1(1)] bucket_destroy_relation_def d1 by (auto split: if_splits)
    ultimately show ?thesis
      using False c1 g1(1,2) core_of_skeleton[OF s1(1)] s1(2) by (simp add: buckets_kept_def)
  next
    case True
    with rest d1 obtain b_to where bt: "bucket_ptr ?m3 b = Some b_to" 
      by (auto simp: Let_def split: option.splits)
    obtain m4 c4 where d2: "bucket_destroy_relation ?m3 b a k = (m4, c4)"
      by (cases "bucket_destroy_relation ?m3 b a k") auto
    note g2 = bucket_destroy_relation_facts[OF d2]
    let ?m5 = "(if c4 \<and> owned (m_mesh_meta_data m1) b_to \<and> entity_rank m4 a < entity_rank m4 b
                                       then adjust_closure_count m4 a (- 1) else m4)"
    have s5: "skeleton ?m5 = skeleton m4" "m_mesh_indexes ?m5 = m_mesh_indexes m4"
      using strip_counts_eqD[OF adjust_closure_count_counts] by auto
    have m': "m' = mark_entity_and_upward_related_entities_as_modified
                    (mark_entity_and_upward_related_entities_as_modified ?m5 b) a"
      using rest d1 True bt d2 by (simp add: Let_def)
    have sm: "skeleton m' = skeleton ?m5" "m_mesh_indexes m' = m_mesh_indexes ?m5"
      unfolding m' using mark_entity_skeleton by simp_all
    have co: "core m' = core m"
      using core_of_skeleton[OF sm(1)] core_of_skeleton[OF s5(1)] g2(1) core_of_skeleton[OF s3(1)] g1(1)
        core_of_skeleton[OF s1(1)] by simp
    have bk: "buckets_kept m m'"
      using sm(2) s5(2) g2(2) s3(2) g1(2) s1(2) by (simp add: buckets_kept_def)
    have "m_connectivity m' = m_connectivity m4"
      using skeleton_eqD(8)[OF sm(1)] skeleton_eqD(8)[OF s5(1)] by simp
    also have "\<dots> = (m_connectivity ?m3)(b := without_relation a k (m_connectivity ?m3 b))"
      using g2(4) by (simp add: without_relation_def)
    also have "m_connectivity ?m3 = m_connectivity m2" using skeleton_eqD(8)[OF s3(1)] .
    also have "m_connectivity m2 = (m_connectivity m)(a := without_relation b k (m_connectivity m a))"
      using g1(4) skeleton_eqD(8)[OF s1(1)] by (simp add: without_relation_def)
    finally have "m_connectivity m' = (m_connectivity m)(a := without_relation b k (m_connectivity m a),
                                b := without_relation a k (m_connectivity m b))"
      using ab by (simp add: fun_eq_iff)
    with True c1 co bk show ?thesis by simp
  qed
  then show "core m' = core m" "buckets_kept m m'" "m_connectivity m' =
       (if has_relation m a b k
        then (m_connectivity m)(a := without_relation b k (m_connectivity m a),
                                b := without_relation a k (m_connectivity m b))
        else m_connectivity m)"
    by auto
qed

lemma destroy_relation_parts_stage_total:
  assumes ns: "\<not> in_synchronized_state m" and rb: "relations_have_buckets m"
    and va: "is_valid m a"
  shows "\<exists>m1. destroy_relation_parts_stage m a b k = Inr m1"
proof -
  let ?step = "\<lambda>r keep'.
                     if \<not> (fst r = a \<and> fst (snd r) = k)
                     then (case bucket_ptr m (fst r) of
                             None \<Rightarrow> Inl NullBucket
                           | Some curBucket \<Rightarrow>
                               Inr (get_part_ordinals_to_induce_on_lower_ranks (m_mesh_meta_data m)
                                      curBucket (entity_rank m b) keep'))
                     else Inr keep'"
  have inner: "\<exists>l. fold_err ?step (connectivity m b rk) acc = Inr l \<and> True" for rk acc
  proof (rule fold_err_total[where P = "\<lambda>_. True"])
    fix r s assume "r \<in> set (connectivity m b rk)"
    then have "r \<in> set (m_connectivity m b)" by (rule connectivity_subset)
    then have "m_mesh_indexes m (fst r) \<noteq> None"
      using rb unfolding relations_have_buckets_def by blast
    then show "\<exists>s'. ?step r s = Inr s' \<and> True"
      by (auto simp: bucket_ptr_def)
  qed simp
  have "\<exists>l. fold_err (\<lambda>irank keep. fold_err ?step (connectivity m b irank) keep)
          [Suc (entity_rank m b)..<entity_rank_count (m_mesh_meta_data m)] [] = Inr l \<and> True"
    by (rule fold_err_total[where P = "\<lambda>_. True"]) (use inner in auto)
  then obtain keep where keep: "fold_err (\<lambda>irank keep. fold_err ?step (connectivity m b irank) keep)
          [Suc (entity_rank m b)..<entity_rank_count (m_mesh_meta_data m)] [] = Inr keep"
    by blast
  from va obtain ba where ba: "bucket_ptr m a = Some ba"
    by (auto simp: is_valid_def bucket_ptr_def)
  have "\<exists>m1. (if del \<noteq> [] then internal_change_entity_parts m b [] del else Inr m) = Inr m1" for del
    using internal_change_entity_parts_total[OF ns rb] by simp
  then show ?thesis
    unfolding destroy_relation_parts_stage_def
    using keep ba by simp
qed

lemma adjust_closure_count_indexes:
  "m_mesh_indexes (adjust_closure_count m e d) = m_mesh_indexes m"
  using strip_counts_eqD(2)[OF adjust_closure_count_counts] by simp

lemma destroy_relation_lists_stage_total:
  assumes "is_valid m1 a" "is_valid m1 b"
  shows "\<exists>m' c. destroy_relation_lists_stage m1 a b k = Inr (m', c)"
proof -
  from assms obtain ba where ba: "bucket_ptr m1 a = Some ba"
    by (auto simp: is_valid_def bucket_ptr_def)
  obtain m2 c where d1: "bucket_destroy_relation m1 a b k = (m2, c)"
    by (cases "bucket_destroy_relation m1 a b k") auto
  from assms(2) bucket_destroy_relation_facts(2)[OF d1]
  obtain bb where bb: "bucket_ptr m2 b = Some bb"
    by (auto simp: is_valid_def bucket_ptr_def)
  then have bb': "bucket_ptr (adjust_closure_count m2 b d) b = Some bb" for d
    by (simp add: bucket_ptr_def adjust_closure_count_indexes)
  show ?thesis
    unfolding destroy_relation_lists_stage_def
    using ba d1 bb bb' by (cases c) (auto simp: Let_def split_beta)
qed

lemma is_valid_kept:
  assumes "core s = core m" "buckets_kept m s" "is_valid m x"
  shows "is_valid s x"
  using assms core_eqD(5)[OF assms(1)] by (auto simp: is_valid_def buckets_kept_def)

lemma internal_destroy_relation_total:
  assumes ns: "\<not> in_synchronized_state m" and rb: "relations_have_buckets m"
    and va: "is_valid m a" and vb: "is_valid m b"
    and rk: "entity_rank m a \<noteq> entity_rank m b"
  shows "\<exists>m' c. internal_destroy_relation m a b k = Inr (m', c)"
proof -
  from destroy_relation_parts_stage_total[OF ns rb va]
  obtain m1 where p: "destroy_relation_parts_stage m a b k = Inr m1" by blast
  note f = destroy_relation_parts_stage_frame[OF p]
  have c: "core m1 = core m" using core_of_skeleton[OF f(1)] .
  from destroy_relation_lists_stage_total[OF is_valid_kept[OF c f(2) va] is_valid_kept[OF c f(2) vb]]
  obtain m' ch where "destroy_relation_lists_stage m1 a b k = Inr (m', ch)" by blast
  with p ns va vb rk show ?thesis
    by (simp add: internal_destroy_relation_unfold require_ok_to_modify_def require_valid_relation_def)
qed


lemma connectivity_symmetry_kept:
  assumes sym: "\<And>x y j. has_relation m x y j \<Longrightarrow> has_relation m y x j"
  shows "internal_declare_relation m a b k p = Inr m' \<Longrightarrow> has_relation m' x y j \<Longrightarrow> has_relation m' y x j"
    and "internal_destroy_relation m a b k = Inr (m'', ch) \<Longrightarrow> has_relation m'' x y j \<Longrightarrow> has_relation m'' y x j"
proof -
  assume d: "internal_declare_relation m a b k p = Inr m'" and h: "has_relation m' x y j"
  note f = internal_declare_relation_facts[OF d]
  from f(3) have ab: "a \<noteq> b" by auto
  show "has_relation m' y x j"
  proof (cases "has_relation m a b k")
    case True
    with f(6) h sym show ?thesis by (simp add: has_relation_iff)
  next
    case False
    with sym have nb: "\<not> has_relation m b a k" by blast
    with False f(6) ab have c: "m_connectivity m' = (m_connectivity m)(a := m_connectivity m a @ [(b, k, p)],
                           b := m_connectivity m b @ [(a, k, p)])" by simp
    have old: "has_relation m u v i \<Longrightarrow> has_relation m' u v i" for u v i
      unfolding has_relation_iff c by auto
    from h[unfolded has_relation_iff c] ab
    consider "has_relation m x y j" | "x = a \<and> y = b \<and> j = k" | "x = b \<and> y = a \<and> j = k"
      unfolding has_relation_iff by (auto split: if_splits)
    then show ?thesis
    proof cases
      case 1
      then show ?thesis using sym old by blast
    next
      case 2
      then show ?thesis unfolding has_relation_iff c using ab by auto
    next
      case 3
      then show ?thesis unfolding has_relation_iff c using ab by auto
    qed
  qed
next
  assume d: "internal_destroy_relation m a b k = Inr (m'', ch)" and h: "has_relation m'' x y j"
  note f = internal_destroy_relation_facts[OF d]
  from f(3) have ab: "a \<noteq> b" by auto
  show "has_relation m'' y x j"
  proof (cases "has_relation m a b k")
    case False
    with f(7) h sym show ?thesis by (simp add: has_relation_iff)
  next
    case True
    with f(7) have c: "m_connectivity m'' = (m_connectivity m)(a := without_relation b k (m_connectivity m a),
                                b := without_relation a k (m_connectivity m b))" by simp
    from h have hm: "has_relation m x y j" and n1: "\<not> (x = a \<and> y = b \<and> j = k)" and n2: "\<not> (x = b \<and> y = a \<and> j = k)"
      unfolding has_relation_iff c using ab by (auto simp: without_relation_def split: if_splits)
    from sym[OF hm] obtain q where q: "(x, j, q) \<in> set (m_connectivity m y)" unfolding has_relation_iff by blast
    show ?thesis
      unfolding has_relation_iff c using q n1 n2 ab
      by (auto simp: without_relation_def intro!: exI[of _ q])
  qed
qed

lemma declare_relation_lists:
  assumes d: "declare_relation m a b k p = Inr m'"
    and sym: "has_relation m a b k \<longrightarrow> has_relation m b a k"
  shows "entity_rank m a \<noteq> entity_rank m b"
    "\<exists>q. (b, k, q) \<in> set (connectivity m' a (entity_rank m' b))"
    "\<exists>q. (a, k, q) \<in> set (connectivity m' b (entity_rank m' a))"
proof -
  note f = internal_declare_relation_facts[OF d[unfolded declare_relation_def]]
  from f(3) show "entity_rank m a \<noteq> entity_rank m b" .
  then have ab: "a \<noteq> b" by auto
  have "has_relation m' a b k \<and> has_relation m' b a k"
  proof (cases "has_relation m a b k")
    case True
    with f(6) sym show ?thesis by (simp add: has_relation_iff)
  next
    case False
    show ?thesis
    proof (cases "has_relation m b a k")
      case True
      with False f(6) ab show ?thesis by (auto simp: has_relation_iff)
    next
      case nb: False
      with False f(6) ab show ?thesis by (auto simp: has_relation_iff)
    qed
  qed
  then show "\<exists>q. (b, k, q) \<in> set (connectivity m' a (entity_rank m' b))"
    "\<exists>q. (a, k, q) \<in> set (connectivity m' b (entity_rank m' a))"
    by (auto simp: has_relation_iff connectivity_def)
qed

lemma destroy_relation_lists:
  assumes d: "destroy_relation n a b k = Inr (n', True)"
  shows "(b, k, q) \<notin> set (connectivity n' a rk)" "(a, k, q) \<notin> set (connectivity n' b rk)"
proof -
  note f = internal_destroy_relation_facts[OF d[unfolded destroy_relation_def]]
  from f(3) have ab: "a \<noteq> b" by auto
  from f(6,7) have c: "m_connectivity n' = (m_connectivity n)(a := without_relation b k (m_connectivity n a),
                                b := without_relation a k (m_connectivity n b))" by simp
  show "(b, k, q) \<notin> set (connectivity n' a rk)" "(a, k, q) \<notin> set (connectivity n' b rk)"
    unfolding connectivity_def c using ab by (auto simp: without_relation_def)
qed

text \<open>
  Claim C4: for all entities \<open>a\<close>, \<open>b\<close> and every ordinal \<open>k\<close>, after a successful
  \<open>declare_relation\<close> the entities have different ranks, \<open>b\<close> is in the connectivity of
  \<open>a\<close> for the rank of \<open>b\<close> with the ordinal \<open>k\<close>, and \<open>a\<close> is in the connectivity of
  \<open>b\<close> for the rank of \<open>a\<close> with the same ordinal; after \<open>destroy_relation\<close> returns
  true, neither connectivity holds the other entity under \<open>k\<close>, for any rank. The state
  before the declaration is one in which the relation, if it is there already, is there
  in both directions, which the two operations maintain
  (\<open>connectivity_symmetry_kept\<close>).
\<close>

theorem declare_and_destroy_relation_are_symmetric:
  "(declare_relation m a b k p = Inr m' \<and> (has_relation m a b k \<longrightarrow> has_relation m b a k)
      \<longrightarrow> entity_rank m a \<noteq> entity_rank m b
        \<and> (\<exists>q. (b, k, q) \<in> set (connectivity m' a (entity_rank m' b)))
        \<and> (\<exists>q. (a, k, q) \<in> set (connectivity m' b (entity_rank m' a))))
   \<and> (destroy_relation n a b k = Inr (n', True)
      \<longrightarrow> (\<forall>rk q. (b, k, q) \<notin> set (connectivity n' a rk)) \<and> (\<forall>rk q. (a, k, q) \<notin> set (connectivity n' b rk)))"
  using declare_relation_lists[of m a b k p m'] destroy_relation_lists[of n a b k n']
  by blast

text \<open>
  On the example mesh: the element gets the node as its relation 4, which was not
  there, and the relation 0 between the element and the face is destroyed.
\<close>

theorem declare_and_destroy_relation_are_symmetric_witness:
  "\<not> isl (declare_relation example_mesh 3 1 4 0)
   \<and> \<not> has_relation example_mesh 3 1 4
   \<and> (\<exists>q. (1, 4, q) \<in> set (connectivity (projr (declare_relation example_mesh 3 1 4 0)) 3 0))
   \<and> (\<exists>q. (3, 4, q) \<in> set (connectivity (projr (declare_relation example_mesh 3 1 4 0)) 1 3))
   \<and> \<not> isl (destroy_relation example_mesh 3 2 0)
   \<and> snd (projr (destroy_relation example_mesh 3 2 0))
   \<and> (2, 0, 0) \<notin> set (connectivity (fst (projr (destroy_relation example_mesh 3 2 0))) 3 2)
   \<and> (3, 0, 0) \<notin> set (connectivity (fst (projr (destroy_relation example_mesh 3 2 0))) 2 3)"
proof -
  let ?d = "declare_relation example_mesh 3 1 4 0"
  let ?x = "destroy_relation example_mesh 3 2 0"
  have e: "\<not> isl ?d" "\<not> has_relation example_mesh 3 1 4" "\<not> isl ?x" "snd (projr ?x)"
    by code_simp+
  have d: "?d = Inr (projr ?d)" using e(1) by (cases ?d) auto
  have x: "?x = Inr (fst (projr ?x), True)" using e(3,4) by (cases ?x) (auto simp: prod_eq_iff)
  have k: "entity_rank (projr ?d) 1 = 0" "entity_rank (projr ?d) 3 = 3"
    by code_simp+
  from declare_and_destroy_relation_are_symmetric[where n = example_mesh and a = 3 and b = 2 and k = 0
      and n' = "fst (projr ?x)"] x
  have g: "\<forall>rk q. (2, 0, q) \<notin> set (connectivity (fst (projr ?x)) 3 rk)"
    "\<forall>rk q. (3, 0, q) \<notin> set (connectivity (fst (projr ?x)) 2 rk)"
    by simp_all
  from declare_and_destroy_relation_are_symmetric[where m = example_mesh and a = 3 and b = 1 and k = 4
      and p = 0 and m' = "projr ?d"] d e(2) k(1,2)
  have "(\<exists>q. (1, 4, q) \<in> set (connectivity (projr ?d) 3 0))
      \<and> (\<exists>q. (3, 4, q) \<in> set (connectivity (projr ?d) 1 3))"
    by simp
  with e g show ?thesis by simp
qed

section \<open>Properties of the destruction of entities\<close>

lemma internal_destroy_entity_unfold:
  "internal_destroy_entity m entity wasGhost =
     then_do (require_ok_to_modify m) (\<lambda>_.
       if \<not> is_valid m entity then Inr (m, False)
       else if has_upward_connectivity m entity then Inr (m, False)
       else then_do
              (fold_err (destroy_rank entity) (rev [0..<entity_rank_count (m_mesh_meta_data m)]) m)
              (\<lambda>m4. Inr (detach m4 entity (wasGhost \<or> in_receive_ghost m entity), True)))"
  unfolding internal_destroy_entity_def destroy_rank_def destroy_one_def detach_def Let_def
  by (rule refl)

lemma severed_start: "severed m n {} m"
  by (simp add: severed_def buckets_kept_refl)

lemma severed_has_relation:
  assumes "severed m n P s"
  shows "has_relation s n b k \<longleftrightarrow> has_relation m n b k \<and> (b, k) \<notin> P"
    "x \<noteq> n \<Longrightarrow> has_relation s x n k \<longleftrightarrow> has_relation m x n k \<and> (x, k) \<notin> P"
  using assms by (auto simp: severed_def has_relation_iff)

lemma severed_subset:
  assumes "severed m n P s"
  shows "set (m_connectivity s x) \<subseteq> set (m_connectivity m x)"
  using assms by (cases "x = n") (auto simp: severed_def)

lemma severed_buckets:
  assumes "well_connected m" "severed m n P s"
  shows "relations_have_buckets s"
  unfolding relations_have_buckets_def
proof (intro allI ballI)
  fix e r assume "r \<in> set (m_connectivity s e)"
  with severed_subset[OF assms(2)] have "r \<in> set (m_connectivity m e)" by blast
  with assms(1) have "is_valid m (fst r)" unfolding well_connected_def by blast
  then have "m_mesh_indexes m (fst r) \<noteq> None" by (simp add: is_valid_def)
  with assms(2) show "m_mesh_indexes s (fst r) \<noteq> None" by (simp add: severed_def buckets_kept_def)
qed

lemma sever_step:
  assumes wf: "well_connected m" and ns: "\<not> in_synchronized_state m" and vn: "is_valid m n"
    and sv: "severed m n P s" and r: "r \<in> set (m_connectivity m n)"
  shows "\<exists>s'. destroy_one n r s = Inr s' \<and> severed m n (insert (fst r, fst (snd r)) P) s'"
proof -
  let ?b = "fst r" and ?k = "fst (snd r)"
  from sv have c: "core s = core m" and bk: "buckets_kept m s" by (simp_all add: severed_def)
  from wf r have vb: "is_valid m ?b" and rk: "entity_rank m ?b \<noteq> entity_rank m n"
    and backrel: "has_relation m ?b n ?k"
    unfolding well_connected_def by blast+
  then have bn: "?b \<noteq> n" by auto
  have vs: "is_valid s n" "is_valid s ?b" using is_valid_kept[OF c bk] vn vb by auto
  have ns': "\<not> in_synchronized_state s" using ns core_readers(5)[OF c] by simp
  have rk': "entity_rank s n \<noteq> entity_rank s ?b" using rk core_readers(1)[OF c] by simp
  from internal_destroy_relation_total[OF ns' severed_buckets[OF wf sv] vs rk']
  obtain s' ch where d: "internal_destroy_relation s n ?b ?k = Inr (s', ch)" by blast
  note f = internal_destroy_relation_facts[OF d]
  from sv have sn: "m_connectivity s n = filter (\<lambda>r. (fst r, fst (snd r)) \<notin> P) (m_connectivity m n)"
    and sx: "\<And>x. x \<noteq> n \<Longrightarrow>
            m_connectivity s x = filter (\<lambda>r. \<not> (fst r = n \<and> (x, fst (snd r)) \<in> P)) (m_connectivity m x)"
    by (simp_all add: severed_def)
  have c': "core s' = core m" using f(1) c by simp
  have bk': "buckets_kept m s'" using buckets_kept_trans[OF bk f(2)] .
  have "severed m n (insert (?b, ?k) P) s'"
  proof (cases "has_relation s n ?b ?k")
    case True
    with f(7) have cn: "m_connectivity s' = (m_connectivity s)(n := without_relation ?b ?k (m_connectivity s n),
                                ?b := without_relation n ?k (m_connectivity s ?b))" by simp
    have "m_connectivity s' n = without_relation ?b ?k (m_connectivity s n)"
      using cn bn by simp
    also have "\<dots> = filter (\<lambda>r'. (fst r', fst (snd r')) \<notin> insert (?b, ?k) P) (m_connectivity m n)"
      unfolding sn without_relation_def filter_filter
      by (rule filter_cong) auto
    finally have g1: "m_connectivity s' n = filter (\<lambda>r'. (fst r', fst (snd r')) \<notin> insert (?b, ?k) P) (m_connectivity m n)" .
    have g2: "m_connectivity s' x = filter (\<lambda>r'. \<not> (fst r' = n \<and> (x, fst (snd r')) \<in> insert (?b, ?k) P)) (m_connectivity m x)"
      if xn: "x \<noteq> n" for x
    proof (cases "x = ?b")
      case True
      have "m_connectivity s' ?b = without_relation n ?k (m_connectivity s ?b)"
        using cn by simp
      also have "\<dots> = filter (\<lambda>r'. \<not> (fst r' = n \<and> (?b, fst (snd r')) \<in> insert (?b, ?k) P)) (m_connectivity m ?b)"
        unfolding sx[OF bn] without_relation_def filter_filter
        by (rule filter_cong) auto
      finally show ?thesis using True by simp
    next
      case False
      then have "m_connectivity s' x = m_connectivity s x" using cn xn by simp
      also have "\<dots> = filter (\<lambda>r'. \<not> (fst r' = n \<and> (x, fst (snd r')) \<in> insert (?b, ?k) P)) (m_connectivity m x)"
        unfolding sx[OF xn]
        by (rule filter_cong) (use False in auto)
      finally show ?thesis .
    qed
    show ?thesis
      unfolding severed_def using c' bk' g1 g2 by blast
  next
    case False
    with f(7) have cn: "m_connectivity s' = m_connectivity s" by simp
    from r have "has_relation m n ?b ?k"
      unfolding has_relation_iff by (intro exI[of _ "snd (snd r)"]) simp
    with False severed_has_relation(1)[OF sv, of ?b ?k] have inP: "(?b, ?k) \<in> P" by simp
    then have "insert (?b, ?k) P = P" by auto
    then show ?thesis
      unfolding severed_def using cn sn sx c' bk' by simp
  qed
  with d vs(2) show ?thesis by (simp add: destroy_one_def)
qed

lemma sever_list:
  assumes wf: "well_connected m" and ns: "\<not> in_synchronized_state m" and vn: "is_valid m n"
  shows "set L \<subseteq> set (m_connectivity m n) \<Longrightarrow> severed m n P s \<Longrightarrow>
         \<exists>s'. fold_err (destroy_one n) L s = Inr s' \<and> severed m n (P \<union> (\<lambda>r. (fst r, fst (snd r))) ` set L) s'"
proof (induction L arbitrary: P s)
  case Nil
  then show ?case by simp
next
  case (Cons r L)
  from Cons.prems have r: "r \<in> set (m_connectivity m n)" and L: "set L \<subseteq> set (m_connectivity m n)" by auto
  from sever_step[OF wf ns vn Cons.prems(2) r]
  obtain s1 where s1: "destroy_one n r s = Inr s1" "severed m n (insert (fst r, fst (snd r)) P) s1" by blast
  from Cons.IH[OF L s1(2)] obtain s' where
    s': "fold_err (destroy_one n) L s1 = Inr s'"
    "severed m n (insert (fst r, fst (snd r)) P \<union> (\<lambda>r. (fst r, fst (snd r))) ` set L) s'" by blast
  have eq: "insert (fst r, fst (snd r)) P \<union> (\<lambda>r. (fst r, fst (snd r))) ` set L
            = P \<union> (\<lambda>r. (fst r, fst (snd r))) ` set (r # L)" by auto
  have "fold_err (destroy_one n) (r # L) s = Inr s'" using s1(1) s'(1) by simp
  with s'(2) eq show ?case by metis
qed

lemma sever_ranks:
  assumes wf: "well_connected m" and ns: "\<not> in_synchronized_state m" and vn: "is_valid m n"
  shows "severed m n P s \<Longrightarrow>
         \<exists>s' P'. fold_err (destroy_rank n) R s = Inr s' \<and> severed m n P' s' \<and> P \<subseteq> P'
                \<and> (\<forall>r \<in> set (m_connectivity s' n). entity_rank m (fst r) \<notin> set R)"
proof (induction R arbitrary: P s)
  case Nil
  have "fold_err (destroy_rank n) [] s = Inr s" by simp
  with Nil show ?case by (intro exI[of _ s] exI[of _ P]) simp
next
  case (Cons irank R)
  let ?L = "rev (connectivity s n irank)"
  let ?pairs = "(\<lambda>r. (fst r, fst (snd r))) ` set ?L"
  have "set ?L \<subseteq> set (m_connectivity s n)"
    using connectivity_subset by auto
  then have "set ?L \<subseteq> set (m_connectivity m n)"
    using severed_subset[OF Cons.prems, of n] by blast
  from sever_list[OF wf ns vn this Cons.prems]
  obtain s1 where s1: "fold_err (destroy_one n) ?L s = Inr s1"
    "severed m n (P \<union> ?pairs) s1" by blast
  from Cons.IH[OF s1(2)] obtain s' P' where
    s': "fold_err (destroy_rank n) R s1 = Inr s'" "severed m n P' s'"
    "P \<union> ?pairs \<subseteq> P'"
    "\<forall>r \<in> set (m_connectivity s' n). entity_rank m (fst r) \<notin> set R" by blast
  have er: "entity_rank s = entity_rank m"
    using Cons.prems core_readers(1)[of s m] by (simp add: severed_def)
  have ne: "entity_rank m (fst r) \<noteq> irank" if r: "r \<in> set (m_connectivity s' n)" for r
  proof
    assume e: "entity_rank m (fst r) = irank"
    from r s'(2) have rm: "r \<in> set (m_connectivity m n)" and nP: "(fst r, fst (snd r)) \<notin> P'"
      by (simp_all add: severed_def)
    with s'(3) have "(fst r, fst (snd r)) \<notin> P" by blast
    with rm Cons.prems have "r \<in> set (m_connectivity s n)" by (simp add: severed_def)
    then have "r \<in> set ?L" using e er by (simp add: connectivity_def)
    then have "(fst r, fst (snd r)) \<in> ?pairs" by (rule imageI)
    with s'(3) nP show False by blast
  qed
  have run: "fold_err (destroy_rank n) (irank # R) s = Inr s'"
    using s1(1) s'(1) by (simp add: destroy_rank_def)
  have sub: "P \<subseteq> P'" using s'(3) by blast
  have all: "\<forall>r \<in> set (m_connectivity s' n). entity_rank m (fst r) \<notin> set (irank # R)"
    using ne s'(4) by auto
  from run s'(2) sub all show ?case by blast
qed

lemma has_upward_connectivity_iff:
  assumes "well_connected m"
  shows "has_upward_connectivity m n \<longleftrightarrow>
         (\<exists>r \<in> set (m_connectivity m n). entity_rank m n < entity_rank m (fst r))"
proof
  assume "has_upward_connectivity m n"
  then obtain irank where i: "Suc (entity_rank m n) \<le> irank" "connectivity m n irank \<noteq> []"
    by (auto simp: has_upward_connectivity_def list_ex_iff num_connectivity_def)
  then obtain r where "r \<in> set (connectivity m n irank)" by (cases "connectivity m n irank") auto
  then have "r \<in> set (m_connectivity m n)" "entity_rank m (fst r) = irank"
    by (simp_all add: connectivity_def)
  with i(1) have "r \<in> set (m_connectivity m n) \<and> entity_rank m n < entity_rank m (fst r)" by simp
  then show "\<exists>r \<in> set (m_connectivity m n). entity_rank m n < entity_rank m (fst r)" by (intro bexI[of _ r]) simp_all
next
  assume "\<exists>r \<in> set (m_connectivity m n). entity_rank m n < entity_rank m (fst r)"
  then obtain r where r: "r \<in> set (m_connectivity m n)" "entity_rank m n < entity_rank m (fst r)" by blast
  with assms have lt: "entity_rank m (fst r) < entity_rank_count (m_mesh_meta_data m)"
    unfolding well_connected_def by blast
  from r(1) have "r \<in> set (connectivity m n (entity_rank m (fst r)))" by (simp add: connectivity_def)
  then have "0 < num_connectivity m n (entity_rank m (fst r))"
    by (auto simp: num_connectivity_def)
  with r(2) lt show "has_upward_connectivity m n"
    unfolding has_upward_connectivity_def list_ex_iff
    by (intro bexI[of _ "entity_rank m (fst r)"]) auto
qed

lemma detach_fields:
  "m_connectivity (detach s n g) = (m_connectivity s)(n := [])"
  "m_mesh_indexes (detach s n g) = (m_mesh_indexes s)(n := None)"
  "m_entity_keys (detach s n g) = m_entity_keys s"
  "m_mesh_meta_data (detach s n g) = m_mesh_meta_data s"
  "m_in_synchronized_state (detach s n g) = m_in_synchronized_state s"
  "m_mesh_indexes_size (detach s n g) = m_mesh_indexes_size s"
  by (simp_all add: detach_def record_entity_deletion_def Let_def)

lemma destroy_entity_blocked:
  assumes "\<not> in_synchronized_state m" "is_valid m n" "has_upward_connectivity m n"
  shows "destroy_entity m n g = Inr (m, False)"
  using assms
  by (simp add: destroy_entity_def internal_destroy_entity_unfold require_ok_to_modify_def)

lemma destroy_entity_top:
  assumes ns: "\<not> in_synchronized_state m" and vn: "is_valid m n" and wf: "well_connected m"
    and top: "\<not> has_upward_connectivity m n"
  shows "\<exists>m'. destroy_entity m n g = Inr (m', True)
          \<and> \<not> is_valid m' n \<and> well_connected m' \<and> \<not> in_synchronized_state m'
          \<and> m_connectivity m' n = []
          \<and> (\<forall>x. x \<noteq> n \<longrightarrow> (is_valid m x \<longrightarrow> is_valid m' x)
                \<and> entity_rank m' x = entity_rank m x
                \<and> m_connectivity m' x = filter (\<lambda>r. fst r \<noteq> n) (m_connectivity m x))"
proof -
  let ?R = "rev [0..<entity_rank_count (m_mesh_meta_data m)]"
  from sever_ranks[OF wf ns vn severed_start, of ?R]
  obtain s P where s: "fold_err (destroy_rank n) ?R m = Inr s" "severed m n P s"
    "\<forall>r \<in> set (m_connectivity s n). entity_rank m (fst r) \<notin> set ?R" by blast
  let ?g = "g \<or> in_receive_ghost m n"
  let ?m' = "detach s n ?g"
  have run: "destroy_entity m n g = Inr (?m', True)"
    using ns vn top s(1)
    by (simp add: destroy_entity_def internal_destroy_entity_unfold require_ok_to_modify_def)
  from s(2) have c: "core s = core m" and bk: "buckets_kept m s"
    and sn: "m_connectivity s n = filter (\<lambda>r. (fst r, fst (snd r)) \<notin> P) (m_connectivity m n)"
    and sx: "\<And>x. x \<noteq> n \<Longrightarrow>
            m_connectivity s x = filter (\<lambda>r. \<not> (fst r = n \<and> (x, fst (snd r)) \<in> P)) (m_connectivity m x)"
    by (simp_all add: severed_def)
  have inP: "(fst r, fst (snd r)) \<in> P" if r: "r \<in> set (m_connectivity m n)" for r
  proof (rule ccontr)
    assume "(fst r, fst (snd r)) \<notin> P"
    with r sn have "r \<in> set (m_connectivity s n)" by simp
    with s(3) have "entity_rank m (fst r) \<notin> set ?R" by blast
    moreover from wf r have "entity_rank m (fst r) < entity_rank_count (m_mesh_meta_data m)"
      unfolding well_connected_def by blast
    ultimately show False by simp
  qed
  have cx: "m_connectivity s x = filter (\<lambda>r. fst r \<noteq> n) (m_connectivity m x)" if xn: "x \<noteq> n" for x
    unfolding sx[OF xn]
  proof (rule filter_cong[OF refl])
    fix r assume r: "r \<in> set (m_connectivity m x)"
    show "(\<not> (fst r = n \<and> (x, fst (snd r)) \<in> P)) = (fst r \<noteq> n)"
    proof (cases "fst r = n")
      case True
      from wf r have "has_relation m (fst r) x (fst (snd r))" unfolding well_connected_def by blast
      with True obtain q where "(x, fst (snd r), q) \<in> set (m_connectivity m n)"
        by (auto simp: has_relation_iff)
      from inP[OF this] True show ?thesis by simp
    qed simp
  qed
  have keys: "m_entity_keys ?m' = m_entity_keys m" using detach_fields(3) core_eqD(6)[OF c] by simp
  have meta: "m_mesh_meta_data ?m' = m_mesh_meta_data m" using detach_fields(4) core_eqD(1)[OF c] by simp
  have size: "m_mesh_indexes_size ?m' = m_mesh_indexes_size m" using detach_fields(6) core_eqD(5)[OF c] by simp
  have rank: "entity_rank ?m' = entity_rank m" using keys by (simp add: entity_rank_def fun_eq_iff)
  have valid: "is_valid ?m' x" if "x \<noteq> n" "is_valid m x" for x
    using that bk size by (simp add: is_valid_def detach_fields(2) buckets_kept_def)
  have cn': "m_connectivity ?m' n = []" by (simp add: detach_fields(1))
  have cx': "m_connectivity ?m' x = filter (\<lambda>r. fst r \<noteq> n) (m_connectivity m x)" if "x \<noteq> n" for x
    using cx[OF that] that by (simp add: detach_fields(1))
  have wf': "well_connected ?m'"
    unfolding well_connected_def
  proof (intro allI ballI)
    fix e r assume r: "r \<in> set (m_connectivity ?m' e)"
    with cn' have en: "e \<noteq> n" by auto
    from r cx'[OF en] have rm: "r \<in> set (m_connectivity m e)" and rn: "fst r \<noteq> n" by auto
    from wf rm have w: "is_valid m (fst r)" "entity_rank m (fst r) \<noteq> entity_rank m e"
      "entity_rank m (fst r) < entity_rank_count (m_mesh_meta_data m)"
      "has_relation m (fst r) e (fst (snd r))"
      unfolding well_connected_def by blast+
    from w(4) obtain q where "(e, fst (snd r), q) \<in> set (m_connectivity m (fst r))"
      by (auto simp: has_relation_iff)
    with en cx'[OF rn] have "(e, fst (snd r), q) \<in> set (m_connectivity ?m' (fst r))" by simp
    then have "has_relation ?m' (fst r) e (fst (snd r))" unfolding has_relation_iff by blast
    with valid[OF rn w(1)] w(2,3) rank meta
    show "is_valid ?m' (fst r)
        \<and> entity_rank ?m' (fst r) \<noteq> entity_rank ?m' e
        \<and> entity_rank ?m' (fst r) < entity_rank_count (m_mesh_meta_data ?m')
        \<and> has_relation ?m' (fst r) e (fst (snd r))" by simp
  qed
  have inval: "\<not> is_valid ?m' n" by (simp add: is_valid_def detach_fields(2))
  have ns': "\<not> in_synchronized_state ?m'"
    using ns core_eqD(4)[OF c] by (simp add: in_synchronized_state_def detach_fields(5))
  from run inval wf' ns' cn' valid rank cx' show ?thesis by (intro exI[of _ ?m']) simp
qed

text \<open>
  Claim C3, as stated: for every valid entity that has an upward relation,
  \<open>destroy_entity\<close> returns false without raising an error. In the synchronized state
  it raises: \<open>internal_destroy_entity\<close> starts with \<open>require_ok_to_modify\<close>. The node of
  the example mesh is valid and has an upward relation.
\<close>

theorem destroy_entity_raises_when_synchronized:
  "is_valid (example_mesh\<lparr> m_in_synchronized_state := True \<rparr>) 1
   \<and> has_upward_connectivity (example_mesh\<lparr> m_in_synchronized_state := True \<rparr>) 1
   \<and> destroy_entity (example_mesh\<lparr> m_in_synchronized_state := True \<rparr>) 1 False = Inl NotOkToModify"
proof -
  have "is_valid (example_mesh\<lparr> m_in_synchronized_state := True \<rparr>) 1"
    "has_upward_connectivity (example_mesh\<lparr> m_in_synchronized_state := True \<rparr>) 1"
    by code_simp+
  then show ?thesis
    by (simp add: destroy_entity_def internal_destroy_entity_def require_ok_to_modify_def
        in_synchronized_state_def then_do_def)
qed

text \<open>
  Claim C3, amended: in the modifiable state, for every valid entity of a mesh whose
  connectivity is well connected, \<open>destroy_entity\<close> returns false and leaves the mesh as
  it is when the entity has a relation to an entity of a higher rank; when it has none,
  \<open>destroy_entity\<close> returns true, the entity is no longer valid, and it is gone from the
  connectivity of every other entity, whose validity, rank and other relations stay,
  in a mesh that is again well connected and modifiable. So destroying the entities of
  higher rank that hold the relations removes the upward relations of the entity, and
  its destruction then succeeds.
\<close>

theorem destroy_entity_blocked_by_upward_relations:
  assumes "\<not> in_synchronized_state m" and "is_valid m n" and "well_connected m"
  shows "((\<exists>r \<in> set (m_connectivity m n). entity_rank m n < entity_rank m (fst r))
            \<longrightarrow> destroy_entity m n wasGhost = Inr (m, False))
       \<and> (\<not> (\<exists>r \<in> set (m_connectivity m n). entity_rank m n < entity_rank m (fst r))
            \<longrightarrow> (\<exists>m'. destroy_entity m n wasGhost = Inr (m', True)
                  \<and> \<not> is_valid m' n \<and> well_connected m' \<and> \<not> in_synchronized_state m'
                  \<and> m_connectivity m' n = []
                  \<and> (\<forall>x. x \<noteq> n \<longrightarrow> (is_valid m x \<longrightarrow> is_valid m' x)
                        \<and> entity_rank m' x = entity_rank m x
                        \<and> m_connectivity m' x = filter (\<lambda>r. fst r \<noteq> n) (m_connectivity m x))))"
  using destroy_entity_blocked[OF assms(1,2)] destroy_entity_top[OF assms(1,2,3)]
    has_upward_connectivity_iff[OF assms(3), of n]
  by simp

text \<open>
  On the example mesh, the scenario of the element with its face and its node: the node
  and the face are not destroyed while the face and the element exist; the element is
  destroyed; the node is still not destroyed while the face exists; the face is
  destroyed; the node is destroyed.
\<close>

theorem destroy_entity_blocked_by_upward_relations_witness:
  "destroy_entity example_mesh 1 False = Inr (example_mesh, False)
   \<and> destroy_entity example_mesh 2 False = Inr (example_mesh, False)
   \<and> (\<exists>m1 m2 m3. destroy_entity example_mesh 3 False = Inr (m1, True)
         \<and> \<not> is_valid m1 3 \<and> is_valid m1 2 \<and> is_valid m1 1
         \<and> destroy_entity m1 1 False = Inr (m1, False)
         \<and> destroy_entity m1 2 False = Inr (m2, True)
         \<and> \<not> is_valid m2 2 \<and> is_valid m2 1
         \<and> destroy_entity m2 1 False = Inr (m3, True)
         \<and> \<not> is_valid m3 1)"
proof -
  have h: "\<not> in_synchronized_state example_mesh" "is_valid example_mesh 1" "is_valid example_mesh 2"
    "is_valid example_mesh 3"
    by (simp_all add: example_mesh_def in_synchronized_state_def is_valid_def)
  have r: "entity_rank example_mesh 1 = 0" "entity_rank example_mesh 2 = 2" "entity_rank example_mesh 3 = 3"
    "m_connectivity example_mesh 1 = [(2, 0, 0)]" "m_connectivity example_mesh 2 = [(1, 0, 0), (3, 0, 0)]"
    "m_connectivity example_mesh 3 = [(2, 0, 0)]"
    by (simp_all add: example_mesh_def entity_rank_def)
  from destroy_entity_blocked_by_upward_relations[OF h(1) h(2) example_mesh_well_connected, of False] r
  have a: "destroy_entity example_mesh 1 False = Inr (example_mesh, False)" by simp
  from destroy_entity_blocked_by_upward_relations[OF h(1) h(3) example_mesh_well_connected, of False] r
  have b: "destroy_entity example_mesh 2 False = Inr (example_mesh, False)" by simp
  from destroy_entity_blocked_by_upward_relations[OF h(1) h(4) example_mesh_well_connected, of False] r
  obtain m1 where c: "destroy_entity example_mesh 3 False = Inr (m1, True)"
    "\<not> is_valid m1 3" "well_connected m1" "\<not> in_synchronized_state m1"
    "\<forall>x. x \<noteq> 3 \<longrightarrow> (is_valid example_mesh x \<longrightarrow> is_valid m1 x)
                        \<and> entity_rank m1 x = entity_rank example_mesh x
                        \<and> m_connectivity m1 x = filter (\<lambda>r. fst r \<noteq> 3) (m_connectivity example_mesh x)"
    by auto
  from c(5) h r have v1: "is_valid m1 1" "is_valid m1 2"
    and r1: "entity_rank m1 1 = 0" "entity_rank m1 2 = 2"
      "m_connectivity m1 1 = [(2, 0, 0)]" "m_connectivity m1 2 = [(1, 0, 0)]"
    by auto
  from destroy_entity_blocked_by_upward_relations[OF c(4) v1(1) c(3), of False] r1
  have d: "destroy_entity m1 1 False = Inr (m1, False)" by simp
  from destroy_entity_blocked_by_upward_relations[OF c(4) v1(2) c(3), of False] r1
  obtain m2 where e: "destroy_entity m1 2 False = Inr (m2, True)"
    "\<not> is_valid m2 2" "well_connected m2" "\<not> in_synchronized_state m2"
    "\<forall>x. x \<noteq> 2 \<longrightarrow> (is_valid m1 x \<longrightarrow> is_valid m2 x)
                        \<and> entity_rank m2 x = entity_rank m1 x
                        \<and> m_connectivity m2 x = filter (\<lambda>r. fst r \<noteq> 2) (m_connectivity m1 x)"
    by auto
  from e(5) v1 r1 have v2: "is_valid m2 1" and r2: "m_connectivity m2 1 = []" by auto
  from destroy_entity_blocked_by_upward_relations[OF e(4) v2 e(3), of False] r2
  obtain m3 where f: "destroy_entity m2 1 False = Inr (m3, True)" "\<not> is_valid m3 1" by auto
  from a b c(1,2) v1 d e(1,2) v2 f show ?thesis by blast
qed

section \<open>Properties of the declaration of a side\<close>




section \<open>Properties of the parallel consistency check\<close>

lemma all_returned_map:
  "all_returned rs = Some xs \<Longrightarrow> rs = map Inr xs"
proof (induction rs arbitrary: xs)
  case Nil
  then show ?case by simp
next
  case (Cons r rs)
  show ?case
  proof (cases r)
    case (Inl e)
    with Cons.prems show ?thesis by simp
  next
    case (Inr x)
    with Cons.prems obtain ys where ys: "all_returned rs = Some ys" "xs = x # ys"
      by (cases "all_returned rs") auto
    from Cons.IH[OF ys(1)] ys(2) Inr show ?thesis by simp
  qed
qed

lemma all_returned_total:
  "(\<And>r. r \<in> set rs \<Longrightarrow> \<exists>x. r = Inr x) \<Longrightarrow> \<exists>xs. all_returned rs = Some xs"
proof (induction rs)
  case Nil
  then show ?case by simp
next
  case (Cons r rs)
  from Cons.prems[of r] obtain x where x: "r = Inr x" by auto
  from Cons.IH Cons.prems obtain ys where "all_returned rs = Some ys" by auto
  with x show ?case by simp
qed

lemma foldr_max_nonneg: "0 \<le> foldr max flags (0::int)"
  by (induction flags) auto

lemma foldr_max_ge: "f \<in> set flags \<Longrightarrow> f \<le> foldr max flags (0::int)"
  by (induction flags) auto

lemma foldr_max_zero: "\<forall>f \<in> set flags. f = 0 \<Longrightarrow> foldr max flags (0::int) = 0"
  by (induction flags) auto

lemma all_reduce_max_pos:
  "f \<in> set flags \<Longrightarrow> 0 < f \<Longrightarrow> all_reduce_max flags \<noteq> 0"
  using foldr_max_ge[of f flags] by (simp add: all_reduce_max_def)

lemma all_reduce_max_none:
  "\<forall>f \<in> set flags. f = 0 \<Longrightarrow> all_reduce_max flags = 0"
  using foldr_max_zero[of flags] by (simp add: all_reduce_max_def)

lemma move_entity_flag:
  assumes "move_entity_to_proper_part_ownership e st = Inr st'" "snd st = 0 \<or> snd st = 1"
  shows "snd st' = 0 \<or> snd st' = 1"
proof -
  from assms(1) have "snd st' = snd st \<or> snd st' = 1"
    unfolding move_entity_to_proper_part_ownership_def Let_def
    by (auto dest!: then_do_Inr)
  with assms(2) show ?thesis by auto
qed

lemma move_entities_loop_flag:
  assumes "move_entities_loop m es = Inr (m', f)"
  shows "f = 0 \<or> f = 1"
proof -
  have "snd (m', f) = 0 \<or> snd (m', f) = 1"
    using assms[unfolded move_entities_loop_def]
    by (rule fold_err_inv[where P = "\<lambda>st. snd st = 0 \<or> snd st = 1", rotated 2])
       (use move_entity_flag in auto)
  then show ?thesis by simp
qed

lemma set_owner_keeps:
  "in_synchronized_state (internal_set_owner m e o') = in_synchronized_state m"
  "relations_have_buckets (internal_set_owner m e o') = relations_have_buckets m"
  by (simp_all add: internal_set_owner_def in_synchronized_state_def relations_have_buckets_def)

lemma unprotect_keeps:
  "in_synchronized_state (unprotect_orphaned_node m e) = in_synchronized_state m"
  "relations_have_buckets (unprotect_orphaned_node m e) = relations_have_buckets m"
  by (simp_all add: unprotect_orphaned_node_def in_synchronized_state_def relations_have_buckets_def)

lemma change_parts_keeps:
  assumes "internal_change_entity_parts m e a r = Inr m'"
  shows "in_synchronized_state m' = in_synchronized_state m"
    "relations_have_buckets m \<Longrightarrow> relations_have_buckets m'"
  using internal_change_entity_parts_frame(1,2)[OF assms] skeleton_readers(7)[of m' m]
    relations_have_buckets_kept[of m m']
  by auto

lemma move_entity_total:
  assumes "\<not> in_synchronized_state (fst st)" "relations_have_buckets (fst st)"
  shows "\<exists>st'. move_entity_to_proper_part_ownership e st = Inr st'
          \<and> \<not> in_synchronized_state (fst st') \<and> relations_have_buckets (fst st')"
proof -
  define m1 where "m1 = (if parallel_owner_rank (fst st) e = parallel_rank (fst st) \<and> state (fst st) e = Created
                then internal_set_owner (fst st) e (determine_new_owner (fst st) e) else fst st)"
  have k1: "\<not> in_synchronized_state m1" "relations_have_buckets m1"
    using assms set_owner_keeps by (auto simp: m1_def)
  have k2: "\<not> in_synchronized_state (unprotect_orphaned_node m1 e)"
    "relations_have_buckets (unprotect_orphaned_node m1 e)"
    using k1 unprotect_keeps by auto
  have step: "\<exists>m2. internal_change_entity_parts x e a r = Inr m2 \<and> \<not> in_synchronized_state m2 \<and> relations_have_buckets m2"
    if "\<not> in_synchronized_state x" "relations_have_buckets x" for x a r
  proof -
    from internal_change_entity_parts_total[OF that] obtain m2 where
      m2: "internal_change_entity_parts x e a r = Inr m2" by blast
    from change_parts_keeps[OF m2] that m2 show ?thesis by simp
  qed
  have "\<exists>m2. (if parallel_owner_rank m1 e \<noteq> parallel_rank m1
            then internal_change_entity_parts m1 e [globally_shared_part (m_mesh_meta_data (fst st))]
                    [locally_owned_part (m_mesh_meta_data (fst st))]
            else if internal_entity_comm_map_shared m1 (entity_key m1 e) \<noteq> []
            then internal_change_entity_parts (unprotect_orphaned_node m1 e) e
                    [globally_shared_part (m_mesh_meta_data (fst st))] []
            else internal_change_entity_parts m1 e [] [globally_shared_part (m_mesh_meta_data (fst st))]) = Inr m2
          \<and> \<not> in_synchronized_state m2 \<and> relations_have_buckets m2"
    using step[OF k1] step[OF k2] by simp
  then show ?thesis
    unfolding move_entity_to_proper_part_ownership_def Let_def m1_def[symmetric]
    by auto
qed

lemma move_entities_loop_total:
  assumes "\<not> in_synchronized_state m" "relations_have_buckets m"
  shows "\<exists>m' f. move_entities_loop m es = Inr (m', f)"
proof -
  have "\<exists>st'. fold_err move_entity_to_proper_part_ownership (rev es) (m, 0) = Inr st'
          \<and> (\<not> in_synchronized_state (fst st') \<and> relations_have_buckets (fst st'))"
    by (rule fold_err_total[where P = "\<lambda>st. \<not> in_synchronized_state (fst st) \<and> relations_have_buckets (fst st)"])
       (use move_entity_total assms in auto)
  then obtain st' where "fold_err move_entity_to_proper_part_ownership (rev es) (m, 0) = Inr st'" by blast
  then have "move_entities_loop m es = Inr (fst st', snd st')" by (simp add: move_entities_loop_def)
  then show ?thesis by blast
qed

text \<open>
  Claim C9: when all processes run \<open>move_entities_to_proper_part_ownership\<close>, each in
  the modifiable state on a mesh whose relations lead to entities with buckets, the
  call has a joint outcome with one result per process. When at least one process has
  found a created entity outside the owned closure (its loop ends with the error flag
  1), every process raises the parallel consistency error; when no process has, every
  process returns.
\<close>

theorem parallel_consistency_error_is_collective:
  assumes "\<forall>p \<in> set procs. \<not> in_synchronized_state (fst p) \<and> relations_have_buckets (fst p)"
  shows "\<exists>results. move_entities_to_proper_part_ownership procs = Some results
          \<and> length results = length procs
          \<and> ((\<exists>p \<in> set procs. \<exists>m. move_entities_loop (fst p) (snd p) = Inr (m, 1))
               \<longrightarrow> (\<forall>r \<in> set results. r = Inl ParallelConsistencyError))
          \<and> (\<not> (\<exists>p \<in> set procs. \<exists>m. move_entities_loop (fst p) (snd p) = Inr (m, 1))
               \<longrightarrow> (\<forall>r \<in> set results. \<exists>m. r = Inr m))"
proof -
  let ?loops = "map (\<lambda>pm. move_entities_loop (fst pm) (snd pm)) procs"
  have "\<exists>x. r = Inr x" if "r \<in> set ?loops" for r
  proof -
    from that obtain p where p: "p \<in> set procs" "r = move_entities_loop (fst p) (snd p)" by auto
    from assms p(1) have "\<not> in_synchronized_state (fst p)" "relations_have_buckets (fst p)" by auto
    from move_entities_loop_total[OF this] p(2) show ?thesis by auto
  qed
  from all_returned_total[OF this] obtain locals where locals: "all_returned ?loops = Some locals"
    by blast
  from all_returned_map[OF locals] have lm: "?loops = map Inr locals" .
  then have len: "length locals = length procs" using length_map by metis
  let ?reduced = "all_reduce_max (map snd locals)"
  let ?results = "map (\<lambda>l. throw_if_error_flag ?reduced (fst l)) locals"
  have run: "move_entities_to_proper_part_ownership procs = Some ?results"
    using locals by (simp add: move_entities_to_proper_part_ownership_def Let_def)
  have nth: "move_entities_loop (fst (procs ! i)) (snd (procs ! i)) = Inr (locals ! i)" if "i < length procs" for i
  proof -
    have "?loops ! i = map Inr locals ! i" using lm by simp
    with that len show ?thesis by simp
  qed
  have flags: "snd l = 0 \<or> snd l = 1" if "l \<in> set locals" for l
  proof -
    from that obtain i where i: "i < length locals" "l = locals ! i" by (auto simp: in_set_conv_nth)
    with nth[of i] len have "move_entities_loop (fst (procs ! i)) (snd (procs ! i)) = Inr (fst l, snd l)" by simp
    from move_entities_loop_flag[OF this] show ?thesis .
  qed
  have det: "\<forall>r \<in> set ?results. r = Inl ParallelConsistencyError"
    if "\<exists>p \<in> set procs. \<exists>m. move_entities_loop (fst p) (snd p) = Inr (m, 1)"
  proof -
    from that obtain i m where i: "i < length procs" "move_entities_loop (fst (procs ! i)) (snd (procs ! i)) = Inr (m, 1)"
      by (auto simp: in_set_conv_nth)
    with nth[of i] have "locals ! i = (m, 1)" by simp
    with i(1) len have "(m, 1) \<in> set locals" by (metis nth_mem)
    then have "1 \<in> set (map snd locals)" by force
    from all_reduce_max_pos[OF this] have "?reduced \<noteq> 0" by simp
    then show ?thesis by (simp add: throw_if_error_flag_def)
  qed
  have nodet: "\<forall>r \<in> set ?results. \<exists>m. r = Inr m"
    if nd: "\<not> (\<exists>p \<in> set procs. \<exists>m. move_entities_loop (fst p) (snd p) = Inr (m, 1))"
  proof -
    have "snd l = 0" if l: "l \<in> set locals" for l
    proof (rule ccontr)
      assume "snd l \<noteq> 0"
      with flags[OF l] have one: "snd l = 1" by simp
      from l obtain i where i: "i < length locals" "l = locals ! i" by (auto simp: in_set_conv_nth)
      with nth[of i] len one have "move_entities_loop (fst (procs ! i)) (snd (procs ! i)) = Inr (fst l, 1)"
        by (metis prod.collapse)
      moreover have "procs ! i \<in> set procs" using i(1) len by simp
      ultimately show False using nd by blast
    qed
    then have "\<forall>f \<in> set (map snd locals). f = 0" by auto
    from all_reduce_max_none[OF this] show ?thesis by (simp add: throw_if_error_flag_def)
  qed
  from run len det nodet show ?thesis by (intro exI[of _ ?results]) simp
qed

text \<open>
  Two processes: when the second holds the example mesh with no entity in the owned
  closure, both raise; when both hold the example mesh, both return.
\<close>

theorem parallel_consistency_error_is_collective_witness:
  "move_entities_to_proper_part_ownership [(example_mesh, [1]), (example_mesh_with_ghost, [1])]
     = Some [Inl ParallelConsistencyError, Inl ParallelConsistencyError]
   \<and> (\<exists>m1 m2. move_entities_to_proper_part_ownership [(example_mesh, [1]), (example_mesh, [2])]
         = Some [Inr m1, Inr m2])"
proof -
  have nb: "\<not> in_synchronized_state example_mesh" "\<not> in_synchronized_state example_mesh_with_ghost"
    "relations_have_buckets example_mesh_with_ghost"
    using example_mesh_relations_have_buckets
    by (simp_all add: example_mesh_with_ghost_def example_mesh_def in_synchronized_state_def
        relations_have_buckets_def)
  have g: "\<not> isl (move_entities_loop example_mesh_with_ghost [1])"
    "snd (projr (move_entities_loop example_mesh_with_ghost [1])) = 1"
    "\<not> isl (move_entities_loop example_mesh [1])"
    "snd (projr (move_entities_loop example_mesh [1])) = 0"
    "\<not> isl (move_entities_loop example_mesh [2])"
    "snd (projr (move_entities_loop example_mesh [2])) = 0"
    by code_simp+
  have l1: "move_entities_loop example_mesh_with_ghost [1]
             = Inr (fst (projr (move_entities_loop example_mesh_with_ghost [1])), 1)"
    using g(1,2) by (cases "move_entities_loop example_mesh_with_ghost [1]") (auto simp: prod_eq_iff)
  have l2: "move_entities_loop example_mesh [1] = Inr (fst (projr (move_entities_loop example_mesh [1])), 0)"
    using g(3,4) by (cases "move_entities_loop example_mesh [1]") (auto simp: prod_eq_iff)
  have l3: "move_entities_loop example_mesh [2] = Inr (fst (projr (move_entities_loop example_mesh [2])), 0)"
    using g(5,6) by (cases "move_entities_loop example_mesh [2]") (auto simp: prod_eq_iff)
  from parallel_consistency_error_is_collective[of "[(example_mesh, [1]), (example_mesh_with_ghost, [1])]"]
    nb example_mesh_relations_have_buckets l1
  obtain rs where rs: "move_entities_to_proper_part_ownership [(example_mesh, [1]), (example_mesh_with_ghost, [1])] = Some rs"
    "length rs = 2" "\<forall>r \<in> set rs. r = Inl ParallelConsistencyError"
    by auto
  from rs(2) obtain r1 r2 where "rs = [r1, r2]"
    by (cases rs; cases "tl rs"; cases "tl (tl rs)") auto
  with rs(1,3) have a: "move_entities_to_proper_part_ownership [(example_mesh, [1]), (example_mesh_with_ghost, [1])]
     = Some [Inl ParallelConsistencyError, Inl ParallelConsistencyError]" by simp
  from parallel_consistency_error_is_collective[of "[(example_mesh, [1]), (example_mesh, [2])]"]
    nb example_mesh_relations_have_buckets l2 l3
  obtain qs where qs: "move_entities_to_proper_part_ownership [(example_mesh, [1]), (example_mesh, [2])] = Some qs"
    "length qs = 2" "\<forall>r \<in> set qs. \<exists>m. r = Inr m"
    by auto
  from qs(2) obtain q1 q2 where "qs = [q1, q2]"
    by (cases qs; cases "tl qs"; cases "tl (tl qs)") auto
  with qs(1,3) have b: "\<exists>m1 m2. move_entities_to_proper_part_ownership [(example_mesh, [1]), (example_mesh, [2])]
         = Some [Inr m1, Inr m2]" by auto
  from a b show ?thesis by simp
qed

end
